theory Spec2Isabelle
  imports Complex_Main "HOL-Library.Multiset"
begin

section \<open>JavaScript numbers\<close>

text \<open>
  A JavaScript number is modelled as an exact real number, or one of the three special
  values \<open>NaN\<close>, \<open>+Infinity\<close> and \<open>-Infinity\<close>. The rounding and the overflow of IEEE
  doubles and the sign of zero are not modelled: arithmetic on finite values is exact.
\<close>

datatype jsnum = NaN | NegInf | Fin real | PosInf

fun js_neg :: "jsnum \<Rightarrow> jsnum" where
  "js_neg NaN = NaN"
| "js_neg NegInf = PosInf"
| "js_neg (Fin a) = Fin (- a)"
| "js_neg PosInf = NegInf"

fun js_add :: "jsnum \<Rightarrow> jsnum \<Rightarrow> jsnum" where
  "js_add NaN _ = NaN"
| "js_add _ NaN = NaN"
| "js_add (Fin a) (Fin b) = Fin (a + b)"
| "js_add (Fin a) y = y"
| "js_add x (Fin b) = x"
| "js_add PosInf PosInf = PosInf"
| "js_add NegInf NegInf = NegInf"
| "js_add PosInf NegInf = NaN"
| "js_add NegInf PosInf = NaN"

definition js_sub :: "jsnum \<Rightarrow> jsnum \<Rightarrow> jsnum" where
  "js_sub x y = js_add x (js_neg y)"

text \<open>Sign of a number that is not \<open>NaN\<close>: \<open>-1\<close>, \<open>0\<close> or \<open>1\<close>.\<close>

fun js_sign :: "jsnum \<Rightarrow> int" where
  "js_sign NaN = 0"
| "js_sign NegInf = - 1"
| "js_sign (Fin a) = (if a < 0 then - 1 else if a = 0 then 0 else 1)"
| "js_sign PosInf = 1"

definition js_inf :: "int \<Rightarrow> jsnum" where
  "js_inf s = (if s < 0 then NegInf else PosInf)"

fun js_mul :: "jsnum \<Rightarrow> jsnum \<Rightarrow> jsnum" where
  "js_mul NaN _ = NaN"
| "js_mul _ NaN = NaN"
| "js_mul (Fin a) (Fin b) = Fin (a * b)"
| "js_mul x y =
     (if js_sign x = 0 \<or> js_sign y = 0 then NaN else js_inf (js_sign x * js_sign y))"

text \<open>
  Division. Every zero of the model is \<open>+0\<close>; the divisors of the source are the
  literals \<open>60\<close> and \<open>13\<close>.
\<close>

fun js_div :: "jsnum \<Rightarrow> jsnum \<Rightarrow> jsnum" where
  "js_div NaN _ = NaN"
| "js_div _ NaN = NaN"
| "js_div (Fin a) (Fin b) =
     (if b = 0 then (if a = 0 then NaN else js_inf (js_sign (Fin a))) else Fin (a / b))"
| "js_div (Fin a) y = Fin 0"
| "js_div x (Fin b) = js_inf (js_sign x * (if b < 0 then - 1 else 1))"
| "js_div x y = NaN"

text \<open>The comparisons \<open>>\<close>, \<open><\<close> and \<open>>=\<close>: false as soon as an operand is \<open>NaN\<close>.\<close>

fun js_lt :: "jsnum \<Rightarrow> jsnum \<Rightarrow> bool" where
  "js_lt NaN _ = False"
| "js_lt _ NaN = False"
| "js_lt (Fin a) (Fin b) = (a < b)"
| "js_lt NegInf y = (y \<noteq> NegInf)"
| "js_lt x PosInf = (x \<noteq> PosInf)"
| "js_lt x y = False"

definition js_gt :: "jsnum \<Rightarrow> jsnum \<Rightarrow> bool" where
  "js_gt x y = js_lt y x"

definition js_ge :: "jsnum \<Rightarrow> jsnum \<Rightarrow> bool" where
  "js_ge x y = (x \<noteq> NaN \<and> y \<noteq> NaN \<and> \<not> js_lt x y)"

definition js_le :: "jsnum \<Rightarrow> jsnum \<Rightarrow> bool" where
  "js_le x y = js_ge y x"

section \<open>Strings to numbers\<close>

text \<open>
  Strings are byte strings. \<open>Number(s)\<close> follows the grammar of ECMAScript's
  \<open>StringNumericLiteral\<close> on ASCII text: surrounding white space is dropped, the empty
  string is \<open>0\<close>, then come the radix literals \<open>0x\<close>, \<open>0o\<close>, \<open>0b\<close>, or a signed
  decimal literal with an optional fraction and exponent, or a signed \<open>Infinity\<close>;
  anything else is \<open>NaN\<close>.
\<close>

definition isDigit :: "char \<Rightarrow> bool" where
  "isDigit c = (48 \<le> (of_char c :: nat) \<and> (of_char c :: nat) \<le> 57)"

definition isUpper :: "char \<Rightarrow> bool" where
  "isUpper c = (65 \<le> (of_char c :: nat) \<and> (of_char c :: nat) \<le> 90)"

definition isLower :: "char \<Rightarrow> bool" where
  "isLower c = (97 \<le> (of_char c :: nat) \<and> (of_char c :: nat) \<le> 122)"

definition isWordChar :: "char \<Rightarrow> bool" where
  "isWordChar c = (isDigit c \<or> isUpper c \<or> isLower c \<or> c = CHR ''_'')"

definition isStrWhiteSpace :: "char \<Rightarrow> bool" where
  "isStrWhiteSpace c = ((9 \<le> (of_char c :: nat) \<and> (of_char c :: nat) \<le> 13) \<or> (of_char c :: nat) = 32)"

definition digitVal :: "char \<Rightarrow> nat" where
  "digitVal c =
     (if isDigit c then of_char c - 48
      else if isUpper c then of_char c - 55
      else of_char c - 87)"

definition isRadixDigit :: "nat \<Rightarrow> char \<Rightarrow> bool" where
  "isRadixDigit r c = ((isDigit c \<or> isUpper c \<or> isLower c) \<and> digitVal c < r)"

definition digitsValue :: "nat \<Rightarrow> string \<Rightarrow> nat" where
  "digitsValue r s = foldl (\<lambda>a c. r * a + digitVal c) 0 s"

definition trim :: "string \<Rightarrow> string" where
  "trim s = rev (dropWhile isStrWhiteSpace (rev (dropWhile isStrWhiteSpace s)))"

definition radixLiteral :: "nat \<Rightarrow> string \<Rightarrow> jsnum" where
  "radixLiteral r ds =
     (if ds \<noteq> [] \<and> list_all (isRadixDigit r) ds then Fin (real (digitsValue r ds)) else NaN)"

text \<open>The exponent part: \<open>None\<close> when malformed, the exponent otherwise (0 when absent).\<close>

definition exponentPart :: "string \<Rightarrow> int option" where
  "exponentPart s =
     (case s of
        [] \<Rightarrow> Some 0
      | c # t \<Rightarrow>
          if c = CHR ''e'' \<or> c = CHR ''E'' then
            (let neg = (t \<noteq> [] \<and> hd t = CHR ''-'');
                 ds = (if t \<noteq> [] \<and> (hd t = CHR ''-'' \<or> hd t = CHR ''+'') then tl t else t)
             in if ds \<noteq> [] \<and> list_all isDigit ds
                then Some (if neg then - int (digitsValue 10 ds) else int (digitsValue 10 ds))
                else None)
          else None)"

definition scale10 :: "real \<Rightarrow> int \<Rightarrow> real" where
  "scale10 m e = (if 0 \<le> e then m * 10 ^ nat e else m / 10 ^ nat (- e))"

definition unsignedDecimalLiteral :: "string \<Rightarrow> jsnum" where
  "unsignedDecimalLiteral s =
     (if s = ''Infinity'' then PosInf
      else
        let ip = takeWhile isDigit s;
            r1 = dropWhile isDigit s;
            dot = (r1 \<noteq> [] \<and> hd r1 = CHR ''.'');
            fp = (if dot then takeWhile isDigit (tl r1) else []);
            r2 = (if dot then dropWhile isDigit (tl r1) else r1)
        in if ip = [] \<and> fp = [] then NaN
           else case exponentPart r2 of
                  None \<Rightarrow> NaN
                | Some e \<Rightarrow>
                    Fin (scale10 (real (digitsValue 10 ip)
                                  + real (digitsValue 10 fp) / 10 ^ length fp) e))"

definition Number :: "string \<Rightarrow> jsnum" where
  "Number str =
     (let s = trim str in
      if s = [] then Fin 0
      else if take 2 s = ''0x'' \<or> take 2 s = ''0X'' then radixLiteral 16 (drop 2 s)
      else if take 2 s = ''0o'' \<or> take 2 s = ''0O'' then radixLiteral 8 (drop 2 s)
      else if take 2 s = ''0b'' \<or> take 2 s = ''0B'' then radixLiteral 2 (drop 2 s)
      else if hd s = CHR ''+'' then unsignedDecimalLiteral (tl s)
      else if hd s = CHR ''-'' then js_neg (unsignedDecimalLiteral (tl s))
      else unsignedDecimalLiteral s)"

text \<open>\<open>s.split(sep)\<close> for a one-character separator: never the empty list.\<close>

fun split :: "char \<Rightarrow> string \<Rightarrow> string list" where
  "split sep [] = [[]]"
| "split sep (c # cs) =
     (if c = sep then [] # split sep cs
      else (case split sep cs of [] \<Rightarrow> [[c]] | p # ps \<Rightarrow> (c # p) # ps))"

section \<open>Time normalisation\<close>

text \<open>
  \<open>const [hours, minutes] = timeStr.split(':').map(Number); return hours + minutes / 60\<close>.
  Without a colon \<open>minutes\<close> is \<open>undefined\<close> and \<open>undefined / 60\<close> is \<open>NaN\<close>; parts
  after the second are ignored.
\<close>

definition convertTimeToNumber :: "string \<Rightarrow> jsnum" where
  "convertTimeToNumber timeStr =
     (let parts = map Number (split (CHR '':'') timeStr);
          hours = hd parts;
          minutes_over_60 = (if length parts < 2 then NaN else js_div (parts ! 1) (Fin 60))
      in js_add hours minutes_over_60)"

text \<open>\<open>((h - 7) / 13) * 100\<close>, the position of an hour in the display window.\<close>

definition position :: "jsnum \<Rightarrow> jsnum" where
  "position h = js_mul (js_div (js_sub h (Fin 7)) (Fin 13)) (Fin 100)"

text \<open>\<open>((endTime - startTime) / 13) * 100\<close>.\<close>

definition span :: "jsnum \<Rightarrow> jsnum \<Rightarrow> jsnum" where
  "span startTime endTime = js_mul (js_div (js_sub endTime startTime) (Fin 13)) (Fin 100)"

section \<open>Schedule data\<close>

text \<open>
  The declarations of \<open>TimeSlot\<close> and \<open>DaySchedule\<close> live in \<open>../types\<close>; the component
  reads \<open>schedule.data\<close> and, of each slot, \<open>start\<close>, \<open>end\<close> and the optional \<open>value\<close>.
\<close>

record TimeSlot =
  slot_start :: string
  slot_end :: string
  slot_value :: "string option"

record DaySchedule =
  data :: "TimeSlot list"

text \<open>
  \<open>interface PositionedEvent\<close>. The fields \<open>start\<close>, \<open>end\<close> and \<open>value\<close> carry the
  prefix \<open>ev_\<close>; an absent \<open>isOverlapping\<close> or \<open>continuationGroup\<close> is \<open>None\<close>. The
  optional \<open>isContinuation\<close> is never written nor read and is left out.
\<close>

record PositionedEvent =
  ev_start :: string
  ev_end :: string
  ev_value :: string
  startPosition :: jsnum
  duration :: jsnum
  isOverlapping :: "bool option"
  splitIndex :: nat
  totalSplits :: nat
  continuationGroup :: "string option"

section \<open>Splitting and key extraction\<close>

text \<open>\<open>value.split('\n').filter(Boolean)\<close>\<close>

definition splitEventValue :: "string \<Rightarrow> string list" where
  "splitEventValue v = filter (\<lambda>s. s \<noteq> []) (split (CHR 0x0A) v)"

text \<open>The pattern \<open>/CE \d[A-Z] \d{3}/\<close> matched at the head of a string.\<close>

definition continuationAt :: "string \<Rightarrow> bool" where
  "continuationAt s =
     (9 \<le> length s \<and> take 3 s = ''CE '' \<and> isDigit (s ! 3) \<and> isUpper (s ! 4)
      \<and> s ! 5 = CHR '' '' \<and> list_all isDigit (take 3 (drop 6 s)))"

text \<open>\<open>value.match(/CE \d[A-Z] \d{3}/)?.[0]\<close>: the leftmost match, if any.\<close>

fun matchContinuationGroup :: "string \<Rightarrow> string option" where
  "matchContinuationGroup [] = None"
| "matchContinuationGroup (c # cs) =
     (if continuationAt (c # cs) then Some (take 9 (c # cs)) else matchContinuationGroup cs)"

text \<open>
  \<open>value.match(/\b\d{3}\b/)\<close>: the leftmost run of exactly three digits with a word
  boundary on each side. The flag tells whether the preceding character is a word character.
\<close>

definition courseCodeAt :: "string \<Rightarrow> bool" where
  "courseCodeAt s =
     (3 \<le> length s \<and> list_all isDigit (take 3 s) \<and> (length s = 3 \<or> \<not> isWordChar (s ! 3)))"

fun matchCourseCodeFrom :: "bool \<Rightarrow> string \<Rightarrow> string option" where
  "matchCourseCodeFrom prevWord [] = None"
| "matchCourseCodeFrom prevWord (c # cs) =
     (if \<not> prevWord \<and> courseCodeAt (c # cs) then Some (take 3 (c # cs))
      else matchCourseCodeFrom (isWordChar c) cs)"

definition matchCourseCode :: "string \<Rightarrow> string option" where
  "matchCourseCode v = matchCourseCodeFrom False v"

section \<open>Course colours\<close>

text \<open>
  \<open>COURSE_CODES\<close>, \<open>COLOR_SCHEMES\<close> and \<open>DEFAULT_COLOR\<close> come from
  \<open>../constants/courseCodes\<close> and are parameters here; a colour scheme is an object, hence
  truthy. \<open>index % COLOR_SCHEMES.length - 1\<close> parses as \<open>(index % length) - 1\<close>; the
  remainder by zero is \<open>NaN\<close>, written \<open>None\<close>.
\<close>

definition colorIndex :: "nat \<Rightarrow> nat \<Rightarrow> int option" where
  "colorIndex index len = (if len = 0 then None else Some (int (index mod len) - 1))"

text \<open>Reading an array at a number: \<open>undefined\<close> unless it is an index of the array.\<close>

definition arrayGet :: "'a list \<Rightarrow> int option \<Rightarrow> 'a option" where
  "arrayGet xs i =
     (case i of
        None \<Rightarrow> None
      | Some k \<Rightarrow> if 0 \<le> k \<and> k < int (length xs) then Some (xs ! nat k) else None)"

text \<open>
  \<open>new Map(COURSE_CODES.map((code, index) => [code, COLOR_SCHEMES[index % COLOR_SCHEMES.length -1]]))\<close>:
  a later entry replaces an earlier one with the same key; a key may be bound to \<open>undefined\<close>.
\<close>

definition courseColorMap :: "string list \<Rightarrow> 'c list \<Rightarrow> (string \<rightharpoonup> 'c option)" where
  "courseColorMap COURSE_CODES COLOR_SCHEMES =
     foldl (\<lambda>m (code, index). m(code \<mapsto> arrayGet COLOR_SCHEMES (colorIndex index (length COLOR_SCHEMES))))
       Map.empty (zip COURSE_CODES [0..<length COURSE_CODES])"

definition getCourseColor :: "string list \<Rightarrow> 'c list \<Rightarrow> 'c \<Rightarrow> string \<Rightarrow> 'c" where
  "getCourseColor COURSE_CODES COLOR_SCHEMES DEFAULT_COLOR v =
     (case matchCourseCode v of
        None \<Rightarrow> DEFAULT_COLOR
      | Some code \<Rightarrow>
          (case courseColorMap COURSE_CODES COLOR_SCHEMES code of
             Some (Some colors) \<Rightarrow> colors
           | _ \<Rightarrow> DEFAULT_COLOR))"

section \<open>The layout computation of \<open>DayView\<close>\<close>

text \<open>
  Event objects live in a store: an address is an index into the list of all objects
  created so far, and the arrays of the component hold addresses. Two arrays may thus
  share an object, and \<open>===\<close> on events is equality of addresses.
\<close>

type_synonym ref = nat
type_synonym heap = "PositionedEvent list"

subsection \<open>Split and sort\<close>

text \<open>The callback of \<open>flatMap\<close>; a slot without a truthy \<open>value\<close> was filtered out before.\<close>

definition hasValue :: "TimeSlot \<Rightarrow> bool" where
  "hasValue slot = (case slot_value slot of None \<Rightarrow> False | Some v \<Rightarrow> v \<noteq> [])"

definition slotEvents :: "TimeSlot \<Rightarrow> PositionedEvent list" where
  "slotEvents slot =
     (case slot_value slot of
        None \<Rightarrow> []
      | Some v \<Rightarrow>
          let startTime = convertTimeToNumber (slot_start slot);
              endTime = convertTimeToNumber (slot_end slot);
              sp = position startTime;
              dur = span startTime endTime;
              vals = splitEventValue v
          in map (\<lambda>(val, index).
                    \<lparr>ev_start = slot_start slot, ev_end = slot_end slot, ev_value = val,
                     startPosition = sp, duration = dur, isOverlapping = None,
                     splitIndex = index, totalSplits = length vals,
                     continuationGroup = matchContinuationGroup val\<rparr>)
                 (zip vals [0..<length vals]))"

definition createdEvents :: "DaySchedule \<Rightarrow> heap" where
  "createdEvents schedule = concat (map slotEvents (filter hasValue (data schedule)))"

text \<open>
  \<open>.sort((a, b) => a.startPosition - b.startPosition)\<close>. The sort of ECMAScript is stable,
  and a comparator result that is \<open>NaN\<close> counts as \<open>0\<close>. The sort is modelled as insertion
  from the right, each element going in front of the first element it is not greater
  than. While no key is \<open>NaN\<close> the comparator is consistent and the result is the one of
  every stable sort; with a \<open>NaN\<close> key the language leaves the order to the implementation,
  and this is one of the possible orders.
\<close>

fun insort_cmp :: "('a \<Rightarrow> 'a \<Rightarrow> jsnum) \<Rightarrow> 'a \<Rightarrow> 'a list \<Rightarrow> 'a list" where
  "insort_cmp cmp x [] = [x]"
| "insort_cmp cmp x (y # ys) =
     (if js_gt (cmp x y) (Fin 0) then y # insort_cmp cmp x ys else x # y # ys)"

definition sort_cmp :: "('a \<Rightarrow> 'a \<Rightarrow> jsnum) \<Rightarrow> 'a list \<Rightarrow> 'a list" where
  "sort_cmp cmp xs = foldr (insort_cmp cmp) xs []"

definition compareFn :: "heap \<Rightarrow> ref \<Rightarrow> ref \<Rightarrow> jsnum" where
  "compareFn h a b = js_sub (startPosition (h ! a)) (startPosition (h ! b))"

definition processedEvents :: "heap \<Rightarrow> ref list" where
  "processedEvents h = sort_cmp (compareFn h) [0..<length h]"

subsection \<open>Continuation merge\<close>

text \<open>
  The body of the first \<open>forEach\<close>. A key is truthy when it is a non-empty string. The keys
  are matches of \<open>/CE \d[A-Z] \d{3}/\<close>, none of which names a property that the object
  \<open>{}\<close> inherits, so \<open>currentGroup\<close> is a finite map.
\<close>

definition addToGroup :: "heap \<Rightarrow> (string \<rightharpoonup> ref list) \<Rightarrow> ref \<Rightarrow> (string \<rightharpoonup> ref list)" where
  "addToGroup h g r =
     (case continuationGroup (h ! r) of
        None \<Rightarrow> g
      | Some k \<Rightarrow>
          if k = [] then g
          else (case g k of None \<Rightarrow> g(k \<mapsto> [r]) | Some rs \<Rightarrow> g(k \<mapsto> rs @ [r])))"

definition currentGroup :: "heap \<Rightarrow> ref list \<Rightarrow> (string \<rightharpoonup> ref list)" where
  "currentGroup h pe = foldl (addToGroup h) Map.empty pe"

text \<open>
  The callback of \<open>reduce\<close>: the accumulator array, and the store, which grows by the
  object that the spread expression creates.
\<close>

definition mergeStep :: "(string \<rightharpoonup> ref list) \<Rightarrow> heap \<times> ref list \<Rightarrow> ref \<Rightarrow> heap \<times> ref list" where
  "mergeStep g s r =
     (let h = fst s; acc = snd s; event = h ! r in
      case continuationGroup event of
        None \<Rightarrow> (h, acc @ [r])
      | Some k \<Rightarrow>
          if k = [] then (h, acc @ [r])
          else (case g k of
                  None \<Rightarrow> (h, acc @ [r])
                | Some grp \<Rightarrow>
                    if length grp \<le> 1 then (h, acc @ [r])
                    else if r = grp ! 0 then
                      (let lastEvent = h ! (grp ! (length grp - 1)) in
                       (h @ [event\<lparr>ev_end := ev_end lastEvent,
                                   duration := span (convertTimeToNumber (ev_start event))
                                                    (convertTimeToNumber (ev_end lastEvent))\<rparr>],
                        acc @ [length h]))
                    else (h, acc)))"

definition mergedEvents :: "heap \<Rightarrow> ref list \<Rightarrow> heap \<times> ref list" where
  "mergedEvents h pe = foldl (mergeStep (currentGroup h pe)) (h, []) pe"

subsection \<open>Overlap annotation\<close>

definition overlaps :: "PositionedEvent \<Rightarrow> PositionedEvent \<Rightarrow> bool" where
  "overlaps event otherEvent =
     (\<not> (js_ge (startPosition otherEvent) (js_add (startPosition event) (duration event))
         \<or> js_ge (startPosition event) (js_add (startPosition otherEvent) (duration otherEvent))))"

definition overlappingEvents :: "heap \<Rightarrow> ref list \<Rightarrow> nat \<Rightarrow> ref list" where
  "overlappingEvents h pe index =
     map fst (filter (\<lambda>(otherRef, otherIndex).
                        otherIndex \<noteq> index \<and> overlaps (h ! (pe ! index)) (h ! otherRef))
                     (zip pe [0..<length pe]))"

text \<open>The body of the second \<open>forEach\<close>: it writes \<open>isOverlapping\<close> into the object itself.\<close>

definition annotateStep :: "ref list \<Rightarrow> heap \<Rightarrow> nat \<Rightarrow> heap" where
  "annotateStep pe h index =
     h[pe ! index := (h ! (pe ! index))\<lparr>isOverlapping := Some (0 < length (overlappingEvents h pe index))\<rparr>]"

definition annotate :: "ref list \<Rightarrow> heap \<Rightarrow> heap" where
  "annotate pe h = foldl (annotateStep pe) h [0..<length pe]"

subsection \<open>The component\<close>

text \<open>
  The events that the component renders: the objects that \<open>mergedEvents\<close> refers to, read
  after the overlap pass. Without a schedule the component returns its placeholder.
\<close>

definition layout :: "DaySchedule \<Rightarrow> PositionedEvent list" where
  "layout schedule =
     (let h0 = createdEvents schedule;
          pe = processedEvents h0;
          m = mergedEvents h0 pe;
          h2 = annotate pe (fst m)
      in map (\<lambda>r. h2 ! r) (snd m))"


section \<open>Notions used to state the properties\<close>




text \<open>
  The continuation group of a key: the events of the split-and-sorted list that carry
  the key, in the order of that list.
\<close>

definition groupOf :: "heap \<Rightarrow> ref list \<Rightarrow> string \<Rightarrow> ref list" where
  "groupOf h pe k = filter (\<lambda>r. continuationGroup (h ! r) = Some k) pe"

text \<open>The first event of a group of two or more, and the other events of such a group.\<close>

definition isMergeHead :: "heap \<Rightarrow> ref list \<Rightarrow> ref \<Rightarrow> bool" where
  "isMergeHead h pe r =
     (case continuationGroup (h ! r) of
        None \<Rightarrow> False
      | Some k \<Rightarrow> 2 \<le> length (groupOf h pe k) \<and> r = hd (groupOf h pe k))"

definition isDropped :: "heap \<Rightarrow> ref list \<Rightarrow> ref \<Rightarrow> bool" where
  "isDropped h pe r =
     (case continuationGroup (h ! r) of
        None \<Rightarrow> False
      | Some k \<Rightarrow> 2 \<le> length (groupOf h pe k) \<and> r \<noteq> hd (groupOf h pe k))"

text \<open>The events that the merge does not drop, in the order of the split-and-sorted list.\<close>

definition survivors :: "heap \<Rightarrow> ref list \<Rightarrow> ref list" where
  "survivors h pe = filter (\<lambda>r. \<not> isDropped h pe r) pe"

text \<open>
  The merge as the specification words it: an event without a key or in a group of one
  passes through; the first event of a larger group is replaced by a copy that ends where
  the last event of the group ends, with the duration
  \<open>(parseHour(last.end) - parseHour(first.start)) / 13 * 100\<close>; the other events of the
  group are dropped.
\<close>

definition mergeSpec :: "heap \<Rightarrow> ref list \<Rightarrow> PositionedEvent list" where
  "mergeSpec h pe =
     concat (map (\<lambda>r.
       case continuationGroup (h ! r) of
         None \<Rightarrow> [h ! r]
       | Some k \<Rightarrow>
           (let grp = groupOf h pe k; first = h ! hd grp; final = h ! last grp in
            if 2 \<le> length grp then
              (if r = hd grp then
                 [first\<lparr>ev_end := ev_end final,
                        duration := js_mul (js_div (js_sub (convertTimeToNumber (ev_end final))
                                                           (convertTimeToNumber (ev_start first)))
                                                   (Fin 13)) (Fin 100)\<rparr>]
               else [])
            else [h ! r])) pe)"

text \<open>
  The overlap test between the event at index \<open>i\<close> of a list and some event at another
  index of the same list.
\<close>

definition overlapFlag :: "heap \<Rightarrow> ref list \<Rightarrow> nat \<Rightarrow> bool" where
  "overlapFlag h pe i = (\<exists>j<length pe. j \<noteq> i \<and> overlaps (h ! (pe ! i)) (h ! (pe ! j)))"

text \<open>Auxiliary: the same test by address, and the addresses that the merge returns.\<close>

definition refFlag :: "heap \<Rightarrow> ref list \<Rightarrow> ref \<Rightarrow> bool" where
  "refFlag h pe a = (\<exists>b \<in> set pe. b \<noteq> a \<and> overlaps (h ! a) (h ! b))"

definition mergedEvent :: "heap \<Rightarrow> ref list \<Rightarrow> ref \<Rightarrow> PositionedEvent" where
  "mergedEvent h pe r =
     (let grp = groupOf h pe (the (continuationGroup (h ! r))); final = h ! last grp in
      (h ! r)\<lparr>ev_end := ev_end final,
              duration := span (convertTimeToNumber (ev_start (h ! r)))
                               (convertTimeToNumber (ev_end final))\<rparr>)"

fun mergeRefs :: "heap \<Rightarrow> ref list \<Rightarrow> nat \<Rightarrow> ref list \<Rightarrow> ref list" where
  "mergeRefs h pe a [] = []"
| "mergeRefs h pe a (r # rs) =
     (if isMergeHead h pe r then a # mergeRefs h pe (Suc a) rs
      else if isDropped h pe r then mergeRefs h pe a rs
      else r # mergeRefs h pe a rs)"

text \<open>
  Stages of \<open>layout\<close>: the split-and-sorted array, the events that \<open>mergedEvents\<close> refers
  to right after the \<open>reduce\<close>, and the store after the overlap pass.
\<close>

definition sortedRefs :: "DaySchedule \<Rightarrow> ref list" where
  "sortedRefs s = processedEvents (createdEvents s)"

definition preMerge :: "DaySchedule \<Rightarrow> PositionedEvent list" where
  "preMerge s = map (\<lambda>r. createdEvents s ! r) (sortedRefs s)"

definition mergeOutput :: "DaySchedule \<Rightarrow> PositionedEvent list" where
  "mergeOutput s =
     (let m = mergedEvents (createdEvents s) (sortedRefs s) in map (\<lambda>r. fst m ! r) (snd m))"

definition annotated :: "DaySchedule \<Rightarrow> heap" where
  "annotated s = annotate (sortedRefs s) (fst (mergedEvents (createdEvents s) (sortedRefs s)))"

text \<open>Scenario 4 of the specification: two slots that overlap in time.\<close>

definition scenario4 :: DaySchedule where
  "scenario4 =
     \<lparr>data = [\<lparr>slot_start = ''09:00'', slot_end = ''10:00'', slot_value = Some ''A''\<rparr>,
              \<lparr>slot_start = ''09:30'', slot_end = ''10:30'', slot_value = Some ''B''\<rparr>]\<rparr>"

text \<open>
  A continuation of two slots followed by a third event that starts before the
  continuation ends.
\<close>

definition continuationThenOverlap :: DaySchedule where
  "continuationThenOverlap =
     \<lparr>data = [\<lparr>slot_start = ''09:00'', slot_end = ''10:00'', slot_value = Some ''CE 1A 101''\<rparr>,
              \<lparr>slot_start = ''10:00'', slot_end = ''11:00'', slot_value = Some ''CE 1A 101''\<rparr>,
              \<lparr>slot_start = ''10:30'', slot_end = ''11:30'', slot_value = Some ''B''\<rparr>]\<rparr>"

text \<open>Three slots given out of order, two of them starting at the same time.\<close>

definition unsortedDay :: DaySchedule where
  "unsortedDay =
     \<lparr>data = [\<lparr>slot_start = ''10:00'', slot_end = ''11:00'', slot_value = Some ''B''\<rparr>,
              \<lparr>slot_start = ''09:00'', slot_end = ''10:00'', slot_value = Some ''A''\<rparr>,
              \<lparr>slot_start = ''10:00'', slot_end = ''12:00'', slot_value = Some ''C''\<rparr>]\<rparr>"

text \<open>
  The split stage as the specification words it: the non-empty lines of a slot's value,
  and the event of the line at position \<open>i\<close>.
\<close>

definition nonEmptyLines :: "TimeSlot \<Rightarrow> string list" where
  "nonEmptyLines slot =
     (case slot_value slot of
        None \<Rightarrow> []
      | Some v \<Rightarrow> filter (\<lambda>l. l \<noteq> []) (split (CHR 0x0A) v))"

definition lineEvent :: "TimeSlot \<Rightarrow> nat \<Rightarrow> PositionedEvent" where
  "lineEvent slot i =
     \<lparr>ev_start = slot_start slot, ev_end = slot_end slot, ev_value = nonEmptyLines slot ! i,
      startPosition = position (convertTimeToNumber (slot_start slot)),
      duration = span (convertTimeToNumber (slot_start slot)) (convertTimeToNumber (slot_end slot)),
      isOverlapping = None, splitIndex = i, totalSplits = length (nonEmptyLines slot),
      continuationGroup = matchContinuationGroup (nonEmptyLines slot ! i)\<rparr>"

text \<open>Scenario 2 of the specification: one slot with two lines.\<close>

definition scenario2 :: DaySchedule where
  "scenario2 =
     \<lparr>data = [\<lparr>slot_start = ''09:00'', slot_end = ''10:00'',
               slot_value = Some (''CE 1A 101'' @ [CHR 0x0A] @ ''MATH 2B 210'')\<rparr>]\<rparr>"



text \<open>A day whose second slot has a malformed start time, between a later and an earlier slot.\<close>

definition malformedMiddle :: DaySchedule where
  "malformedMiddle =
     \<lparr>data = [\<lparr>slot_start = ''10:00'', slot_end = ''11:00'', slot_value = Some ''B''\<rparr>,
              \<lparr>slot_start = ''xx:00'', slot_end = ''10:00'', slot_value = Some ''A''\<rparr>,
              \<lparr>slot_start = ''09:00'', slot_end = ''10:00'', slot_value = Some ''C''\<rparr>]\<rparr>"

section \<open>Time strings\<close>















section \<open>Numbers\<close>

lemma js_gt_sub:
  "x \<noteq> NaN \<Longrightarrow> y \<noteq> NaN \<Longrightarrow> js_gt (js_sub x y) (Fin 0) = js_lt y x"
  by (cases x; cases y) (simp_all add: js_gt_def js_sub_def)

lemma js_gt_sub_neq: "js_gt (js_sub x y) (Fin 0) \<Longrightarrow> x \<noteq> y"
  by (cases x; cases y) (simp_all add: js_gt_def js_sub_def)

lemma js_le_trans: "js_le x y \<Longrightarrow> js_le y z \<Longrightarrow> js_le x z"
  by (cases x; cases y; cases z) (simp_all add: js_le_def js_ge_def)

lemma js_lt_imp_le: "js_lt x y \<Longrightarrow> js_le x y"
  by (cases x; cases y) (simp_all add: js_le_def js_ge_def)

lemma not_js_lt_imp_le: "x \<noteq> NaN \<Longrightarrow> y \<noteq> NaN \<Longrightarrow> \<not> js_lt y x \<Longrightarrow> js_le x y"
  by (simp add: js_le_def js_ge_def)

lemma position_NaN: "position x = NaN \<longleftrightarrow> x = NaN"
  by (cases x) (simp_all add: position_def js_sub_def js_inf_def)

section \<open>Sorting\<close>

lemma mset_insort_cmp: "mset (insort_cmp cmp x ys) = add_mset x (mset ys)"
  by (induction ys) simp_all

lemma mset_sort_cmp: "mset (sort_cmp cmp xs) = mset xs"
  unfolding sort_cmp_def by (induction xs) (simp_all add: mset_insort_cmp)

lemma set_insort_cmp: "set (insort_cmp cmp x ys) = insert x (set ys)"
  using mset_insort_cmp [of cmp x ys, THEN arg_cong, of set_mset] by simp

lemma filter_insort_cmp:
  assumes "\<And>y. P x \<Longrightarrow> js_gt (cmp x y) (Fin 0) \<Longrightarrow> \<not> P y"
  shows "filter P (insort_cmp cmp x ys) = (if P x then x # filter P ys else filter P ys)"
  using assms by (induction ys) auto

lemma filter_sort_cmp:
  assumes "\<And>x y. P x \<Longrightarrow> js_gt (cmp x y) (Fin 0) \<Longrightarrow> \<not> P y"
  shows "filter P (sort_cmp cmp xs) = filter P xs"
  unfolding sort_cmp_def
  by (induction xs) (simp_all add: filter_insort_cmp [of P _ cmp, OF assms])

lemma sorted_insort_cmp:
  assumes "key x \<noteq> NaN" and "\<forall>y \<in> set ys. key y \<noteq> NaN"
    and "\<And>a b. cmp a b = js_sub (key a) (key b)"
    and "sorted_wrt (\<lambda>a b. js_le (key a) (key b)) ys"
  shows "sorted_wrt (\<lambda>a b. js_le (key a) (key b)) (insort_cmp cmp x ys)"
  using assms(2,4)
proof (induction ys)
  case Nil
  then show ?case by simp
next
  case (Cons y ys)
  from Cons.prems have ky: "key y \<noteq> NaN" by simp
  show ?case
  proof (cases "js_gt (cmp x y) (Fin 0)")
    case True
    then have "js_lt (key y) (key x)"
      using assms(1,3) ky by (simp add: js_gt_sub)
    then have "js_le (key y) (key x)" by (rule js_lt_imp_le)
    with True Cons show ?thesis by (simp add: set_insort_cmp)
  next
    case False
    then have "\<not> js_lt (key y) (key x)"
      using assms(1,3) ky by (simp add: js_gt_sub)
    then have xy: "js_le (key x) (key y)"
      using assms(1) ky by (simp add: not_js_lt_imp_le)
    have "js_le (key x) (key z)" if "z \<in> set ys" for z
    proof -
      from Cons.prems(2) that have "js_le (key y) (key z)" by simp
      with xy show ?thesis by (rule js_le_trans)
    qed
    with False xy Cons.prems show ?thesis by simp
  qed
qed

lemma sorted_sort_cmp:
  assumes "\<forall>y \<in> set xs. key y \<noteq> NaN"
    and "\<And>a b. cmp a b = js_sub (key a) (key b)"
  shows "sorted_wrt (\<lambda>a b. js_le (key a) (key b)) (sort_cmp cmp xs)"
  using assms(1)
proof (induction xs)
  case Nil
  then show ?case by (simp add: sort_cmp_def)
next
  case (Cons x xs)
  then have s: "sorted_wrt (\<lambda>a b. js_le (key a) (key b)) (sort_cmp cmp xs)" by simp
  have "\<forall>y \<in> set (sort_cmp cmp xs). key y \<noteq> NaN"
    using Cons.prems mset_sort_cmp [of cmp xs, THEN arg_cong, of set_mset] by simp
  with Cons.prems s assms(2) have "sorted_wrt (\<lambda>a b. js_le (key a) (key b)) (insort_cmp cmp x (sort_cmp cmp xs))"
    by (intro sorted_insort_cmp) simp_all
  then show ?case by (simp add: sort_cmp_def)
qed

lemma set_sort_cmp: "set (sort_cmp cmp xs) = set xs"
  using mset_sort_cmp [of cmp xs, THEN arg_cong, of set_mset] by simp

lemma processedEvents_mset: "mset (processedEvents h) = mset [0..<length h]"
  by (simp add: processedEvents_def mset_sort_cmp)

lemma processedEvents_set: "set (processedEvents h) = {0..<length h}"
  using set_sort_cmp [of "compareFn h" "[0..<length h]"] by (simp add: processedEvents_def)

lemma processedEvents_length: "length (processedEvents h) = length h"
  using processedEvents_mset [of h, THEN arg_cong, of size] by simp

lemma processedEvents_distinct: "distinct (processedEvents h)"
proof -
  have "distinct [0..<length h]" by simp
  then show ?thesis
    using processedEvents_mset [of h] by (metis mset_eq_imp_distinct_iff)
qed

section \<open>Created events\<close>

lemma matchContinuationGroup_nonempty: "matchContinuationGroup v \<noteq> Some []"
  by (induction v) auto

lemma slotEvents_fresh:
  "e \<in> set (slotEvents slot) \<Longrightarrow> isOverlapping e = None \<and> continuationGroup e \<noteq> Some []"
  by (auto simp: slotEvents_def Let_def matchContinuationGroup_nonempty split: option.splits)

lemma createdEvents_fresh:
  "e \<in> set (createdEvents s) \<Longrightarrow> isOverlapping e = None \<and> continuationGroup e \<noteq> Some []"
  unfolding createdEvents_def using slotEvents_fresh by fastforce

section \<open>Continuation groups\<close>

lemma addToGroup_at:
  "k \<noteq> [] \<Longrightarrow> addToGroup h g r k =
     (if continuationGroup (h ! r) = Some k
      then Some ((case g k of None \<Rightarrow> [] | Some rs \<Rightarrow> rs) @ [r]) else g k)"
  by (auto simp: addToGroup_def split: option.splits)

lemma foldl_addToGroup:
  assumes "k \<noteq> []"
  shows "foldl (addToGroup h) g xs k =
     (if groupOf h xs k = [] then g k
      else Some ((case g k of None \<Rightarrow> [] | Some rs \<Rightarrow> rs) @ groupOf h xs k))"
proof (induction xs arbitrary: g)
  case Nil
  then show ?case by (simp add: groupOf_def)
next
  case (Cons x xs)
  show ?case
    by (simp add: Cons.IH addToGroup_at [OF assms]) (auto simp: groupOf_def split: option.splits)
qed

lemma currentGroup_at:
  "k \<noteq> [] \<Longrightarrow>
   currentGroup h pe k = (if groupOf h pe k = [] then None else Some (groupOf h pe k))"
  by (simp add: currentGroup_def foldl_addToGroup)

lemma groupOf_member:
  "r \<in> set pe \<Longrightarrow> continuationGroup (h ! r) = Some k \<Longrightarrow> r \<in> set (groupOf h pe k)"
  by (simp add: groupOf_def)

section \<open>The merge\<close>

lemma mergeStep_cases:
  assumes "r \<in> set pe" and "r < length h" and "continuationGroup (h ! r) \<noteq> Some []"
    and "\<forall>b \<in> set pe. b < length h"
  shows "mergeStep (currentGroup h pe) (h @ ext, acc) r =
     (if isMergeHead h pe r then (h @ ext @ [mergedEvent h pe r], acc @ [length h + length ext])
      else if isDropped h pe r then (h @ ext, acc)
      else (h @ ext, acc @ [r]))"
proof (cases "continuationGroup (h ! r)")
  case None
  with assms(2) show ?thesis
    by (simp add: mergeStep_def isMergeHead_def isDropped_def nth_append)
next
  case (Some k)
  with assms(3) have k: "k \<noteq> []" by auto
  from assms(1) Some have mem: "r \<in> set (groupOf h pe k)" by (rule groupOf_member)
  then have ne: "groupOf h pe k \<noteq> []" by auto
  have g: "currentGroup h pe k = Some (groupOf h pe k)"
    using k ne by (simp add: currentGroup_at)
  have "last (groupOf h pe k) \<in> set (groupOf h pe k)" using ne by simp
  then have "last (groupOf h pe k) \<in> set pe" by (simp add: groupOf_def)
  with assms(4) have lb: "last (groupOf h pe k) < length h" by simp
  define G where "G = groupOf h pe k"
  have hd0: "G ! 0 = hd G"
    using ne by (simp add: hd_conv_nth G_def)
  have lst: "G ! (length G - Suc 0) = last G"
    using ne by (simp add: last_conv_nth G_def)
  define M where "M = (h ! r)\<lparr>ev_end := ev_end (h ! last G),
     duration := span (convertTimeToNumber (ev_start (h ! r))) (convertTimeToNumber (ev_end (h ! last G)))\<rparr>"
  have ms: "mergeStep (currentGroup h pe) (h @ ext, acc) r =
     (if length G \<le> 1 then (h @ ext, acc @ [r])
      else if r = hd G then (h @ ext @ [M], acc @ [length h + length ext])
      else (h @ ext, acc))"
    using assms(2) Some k g lb
    unfolding mergeStep_def G_def [symmetric] M_def
    by (simp add: nth_append hd0 lst Let_def)
  have a: "isMergeHead h pe r = (2 \<le> length G \<and> r = hd G)"
    and b: "isDropped h pe r = (2 \<le> length G \<and> r \<noteq> hd G)"
    and c: "mergedEvent h pe r = M"
    using Some by (simp_all add: isMergeHead_def isDropped_def mergedEvent_def G_def M_def Let_def)
  show ?thesis
    unfolding ms a b c by auto
qed

lemma foldl_mergeStep:
  assumes "set xs \<subseteq> set pe" and "\<forall>b \<in> set pe. b < length h"
    and "\<forall>e \<in> set h. continuationGroup e \<noteq> Some []"
  shows "foldl (mergeStep (currentGroup h pe)) (h @ ext, acc) xs =
     (h @ ext @ map (mergedEvent h pe) (filter (isMergeHead h pe) xs),
      acc @ mergeRefs h pe (length h + length ext) xs)"
  using assms(1)
proof (induction xs arbitrary: ext acc)
  case Nil
  then show ?case by simp
next
  case (Cons r rs)
  then have r: "r \<in> set pe" and rs: "set rs \<subseteq> set pe" by simp_all
  from r assms(2) have rb: "r < length h" by simp
  with assms(3) have key: "continuationGroup (h ! r) \<noteq> Some []" by simp
  note step = mergeStep_cases [OF r rb key assms(2), of ext acc]
  show ?case
  proof (cases "isMergeHead h pe r")
    case True
    have "foldl (mergeStep (currentGroup h pe)) (h @ ext, acc) (r # rs) =
          foldl (mergeStep (currentGroup h pe)) (h @ (ext @ [mergedEvent h pe r]), acc @ [length h + length ext]) rs"
      using step True by simp
    also have "\<dots> = (h @ (ext @ [mergedEvent h pe r]) @ map (mergedEvent h pe) (filter (isMergeHead h pe) rs),
         (acc @ [length h + length ext]) @ mergeRefs h pe (length h + length (ext @ [mergedEvent h pe r])) rs)"
      by (rule Cons.IH [OF rs])
    finally show ?thesis using True by simp
  next
    case False
    then show ?thesis
      using step Cons.IH [OF rs] by simp
  qed
qed

lemma mergedEvents_eq:
  assumes "\<forall>b \<in> set pe. b < length h" and "\<forall>e \<in> set h. continuationGroup e \<noteq> Some []"
  shows "mergedEvents h pe =
     (h @ map (mergedEvent h pe) (filter (isMergeHead h pe) pe), mergeRefs h pe (length h) pe)"
  using foldl_mergeStep [OF subset_refl assms, of "[]" "[]"] by (simp add: mergedEvents_def)

lemma map_mergeRefs:
  assumes "\<And>i. i < length (filter (isMergeHead h pe) xs) \<Longrightarrow>
             f (a + i) = mergedEvent h pe (filter (isMergeHead h pe) xs ! i)"
  shows "map f (mergeRefs h pe a xs) =
     concat (map (\<lambda>r. if isMergeHead h pe r then [mergedEvent h pe r]
                      else if isDropped h pe r then [] else [f r]) xs)"
  using assms
proof (induction xs arbitrary: a)
  case Nil
  then show ?case by simp
next
  case (Cons r rs)
  show ?case
  proof (cases "isMergeHead h pe r")
    case True
    from Cons.prems [of 0] True have f0: "f a = mergedEvent h pe r" by simp
    have "f (Suc a + i) = mergedEvent h pe (filter (isMergeHead h pe) rs ! i)"
      if "i < length (filter (isMergeHead h pe) rs)" for i
      using Cons.prems [of "Suc i"] True that by simp
    then have "map f (mergeRefs h pe (Suc a) rs) =
       concat (map (\<lambda>r. if isMergeHead h pe r then [mergedEvent h pe r]
                      else if isDropped h pe r then [] else [f r]) rs)"
      by (rule Cons.IH)
    with True f0 show ?thesis by simp
  next
    case False
    with Cons.prems have "\<And>i. i < length (filter (isMergeHead h pe) rs) \<Longrightarrow>
             f (a + i) = mergedEvent h pe (filter (isMergeHead h pe) rs ! i)"
      by simp
    then have "map f (mergeRefs h pe a rs) =
       concat (map (\<lambda>r. if isMergeHead h pe r then [mergedEvent h pe r]
                      else if isDropped h pe r then [] else [f r]) rs)"
      by (rule Cons.IH)
    with False show ?thesis by simp
  qed
qed

lemma head_not_dropped: "isMergeHead h pe r \<Longrightarrow> \<not> isDropped h pe r"
  by (cases "continuationGroup (h ! r)") (simp_all add: isMergeHead_def isDropped_def)

lemma concat_survivors:
  "concat (map (\<lambda>r. if isMergeHead h pe r then [m r] else if isDropped h pe r then [] else [f r]) xs)
   = map (\<lambda>r. if isMergeHead h pe r then m r else f r) (filter (\<lambda>r. \<not> isDropped h pe r) xs)"
  by (induction xs) (simp_all add: head_not_dropped)

section \<open>The overlap pass\<close>

lemma overlappingEvents_flag:
  "(overlappingEvents h pe i \<noteq> []) = overlapFlag h pe i"
proof -
  have z: "set (zip pe [0..<length pe]) = (\<lambda>j. (pe ! j, j)) ` {0..<length pe}"
    by (force simp: set_zip)
  show ?thesis
    unfolding overlappingEvents_def overlapFlag_def
    by (auto simp: filter_empty_conv z)
qed

lemma overlapFlag_refFlag:
  assumes "distinct pe" and "i < length pe"
  shows "overlapFlag h pe i = refFlag h pe (pe ! i)"
proof
  assume "overlapFlag h pe i"
  then obtain j where j: "j < length pe" "j \<noteq> i" "overlaps (h ! (pe ! i)) (h ! (pe ! j))"
    by (auto simp: overlapFlag_def)
  with assms have "pe ! j \<noteq> pe ! i" by (simp add: nth_eq_iff_index_eq)
  with j show "refFlag h pe (pe ! i)"
    unfolding refFlag_def by (metis nth_mem)
next
  assume "refFlag h pe (pe ! i)"
  then obtain b where b: "b \<in> set pe" "b \<noteq> pe ! i" "overlaps (h ! (pe ! i)) (h ! b)"
    by (auto simp: refFlag_def)
  then obtain j where "j < length pe" "pe ! j = b" by (auto simp: in_set_conv_nth)
  with b show "overlapFlag h pe i"
    unfolding overlapFlag_def by auto
qed

text \<open>The heap after the first \<open>k\<close> rounds of the overlap pass.\<close>

lemma annotate_prefix:
  assumes "distinct pe" and "\<forall>b \<in> set pe. b < length h" and "k \<le> length pe"
  shows "length (foldl (annotateStep pe) h [0..<k]) = length h
     \<and> (\<forall>a<length h. foldl (annotateStep pe) h [0..<k] ! a =
           (if a \<in> set (take k pe) then (h ! a)\<lparr>isOverlapping := Some (refFlag h pe a)\<rparr> else h ! a))"
  using assms(3)
proof (induction k)
  case 0
  then show ?case by simp
next
  case (Suc k)
  define A where "A = foldl (annotateStep pe) h [0..<k]"
  from Suc have k: "k < length pe" by simp
  from Suc have len: "length A = length h"
    and inv: "\<And>a. a < length h \<Longrightarrow> A ! a =
           (if a \<in> set (take k pe) then (h ! a)\<lparr>isOverlapping := Some (refFlag h pe a)\<rparr> else h ! a)"
    by (simp_all add: A_def)
  have ov: "overlaps (A ! a) (A ! b) = overlaps (h ! a) (h ! b)"
    if "a < length h" "b < length h" for a b
    using that by (simp add: inv overlaps_def)
  have pb: "pe ! j < length h" if "j < length pe" for j
    using assms(2) that by simp
  have "overlapFlag A pe k = overlapFlag h pe k"
    unfolding overlapFlag_def using k by (auto simp: ov pb)
  then have flag: "(overlappingEvents A pe k \<noteq> []) = refFlag h pe (pe ! k)"
    using overlapFlag_refFlag [OF assms(1) k] by (simp add: overlappingEvents_flag)
  from assms(1) k have fresh: "pe ! k \<notin> set (take k pe)"
    by (auto simp: in_set_conv_nth nth_eq_iff_index_eq)
  from assms(2) k have kb: "pe ! k < length h" by simp
  have step: "foldl (annotateStep pe) h [0..<Suc k] =
      A[pe ! k := (h ! (pe ! k))\<lparr>isOverlapping := Some (refFlag h pe (pe ! k))\<rparr>]"
    using kb fresh by (simp add: A_def [symmetric] annotateStep_def flag inv)
  have tk: "set (take (Suc k) pe) = insert (pe ! k) (set (take k pe))"
    using k by (simp add: take_Suc_conv_app_nth)
  show ?case
  proof (intro conjI allI impI)
    show "length (foldl (annotateStep pe) h [0..<Suc k]) = length h"
      unfolding step using len by simp
  next
    fix a
    assume a: "a < length h"
    show "foldl (annotateStep pe) h [0..<Suc k] ! a =
           (if a \<in> set (take (Suc k) pe) then (h ! a)\<lparr>isOverlapping := Some (refFlag h pe a)\<rparr> else h ! a)"
      unfolding step tk using a len inv [OF a]
      by (cases "a = pe ! k") simp_all
  qed
qed

lemma annotate_nth:
  assumes "distinct pe" and "\<forall>b \<in> set pe. b < length h" and "a < length h"
  shows "annotate pe h ! a =
     (if a \<in> set pe then (h ! a)\<lparr>isOverlapping := Some (refFlag h pe a)\<rparr> else h ! a)"
  using annotate_prefix [OF assms(1,2), of "length pe"] assms(3)
  by (simp add: annotate_def)

lemma refFlag_append:
  assumes "\<forall>b \<in> set pe. b < length h" and "a < length h"
  shows "refFlag (h @ ext) pe a = refFlag h pe a"
  using assms by (auto simp: refFlag_def nth_append)

section \<open>The merge and the overlap pass on the store\<close>

lemma merged_values:
  assumes "\<forall>b \<in> set pe. b < length h" and "\<forall>e \<in> set h. continuationGroup e \<noteq> Some []"
  shows "map (\<lambda>r. fst (mergedEvents h pe) ! r) (snd (mergedEvents h pe)) =
     map (\<lambda>r. if isMergeHead h pe r then mergedEvent h pe r else h ! r) (survivors h pe)"
proof -
  define F where "F = map (mergedEvent h pe) (filter (isMergeHead h pe) pe)"
  have "map (\<lambda>r. (h @ F) ! r) (mergeRefs h pe (length h) pe) =
     concat (map (\<lambda>r. if isMergeHead h pe r then [mergedEvent h pe r]
                      else if isDropped h pe r then [] else [(h @ F) ! r]) pe)"
    by (rule map_mergeRefs) (simp add: F_def)
  also have "\<dots> = map (\<lambda>r. if isMergeHead h pe r then mergedEvent h pe r else (h @ F) ! r) (survivors h pe)"
    unfolding survivors_def by (rule concat_survivors)
  also have "\<dots> = map (\<lambda>r. if isMergeHead h pe r then mergedEvent h pe r else h ! r) (survivors h pe)"
    using assms(1) by (intro map_cong) (auto simp: survivors_def nth_append)
  finally show ?thesis
    by (simp add: mergedEvents_eq [OF assms] F_def)
qed

lemma merge_then_annotate:
  assumes "distinct pe" and "\<forall>b \<in> set pe. b < length h"
    and "\<forall>e \<in> set h. continuationGroup e \<noteq> Some []"
  shows "map (\<lambda>r. annotate pe (fst (mergedEvents h pe)) ! r) (snd (mergedEvents h pe)) =
     map (\<lambda>r. if isMergeHead h pe r then mergedEvent h pe r
              else (h ! r)\<lparr>isOverlapping := Some (refFlag h pe r)\<rparr>) (survivors h pe)"
proof -
  define F where "F = map (mergedEvent h pe) (filter (isMergeHead h pe) pe)"
  define H where "H = annotate pe (h @ F)"
  have b: "\<forall>b \<in> set pe. b < length (h @ F)" using assms(2) by auto
  have old: "H ! r = (h ! r)\<lparr>isOverlapping := Some (refFlag h pe r)\<rparr>" if "r \<in> set pe" for r
  proof -
    from that assms(2) have r: "r < length h" by simp
    then have "H ! r = ((h @ F) ! r)\<lparr>isOverlapping := Some (refFlag (h @ F) pe r)\<rparr>"
      unfolding H_def using that by (simp add: annotate_nth [OF assms(1) b])
    with r show ?thesis by (simp add: nth_append refFlag_append [OF assms(2)])
  qed
  have new: "H ! (length h + i) = mergedEvent h pe (filter (isMergeHead h pe) pe ! i)"
    if "i < length (filter (isMergeHead h pe) pe)" for i
  proof -
    from assms(2) have "length h + i \<notin> set pe" by auto
    moreover from that have "length h + i < length (h @ F)" by (simp add: F_def)
    ultimately have "H ! (length h + i) = (h @ F) ! (length h + i)"
      unfolding H_def by (simp add: annotate_nth [OF assms(1) b])
    with that show ?thesis by (simp add: F_def)
  qed
  have "map (\<lambda>r. H ! r) (mergeRefs h pe (length h) pe) =
     concat (map (\<lambda>r. if isMergeHead h pe r then [mergedEvent h pe r]
                      else if isDropped h pe r then [] else [H ! r]) pe)"
    using new by (rule map_mergeRefs)
  also have "\<dots> = map (\<lambda>r. if isMergeHead h pe r then mergedEvent h pe r else H ! r) (survivors h pe)"
    unfolding survivors_def by (rule concat_survivors)
  also have "\<dots> = map (\<lambda>r. if isMergeHead h pe r then mergedEvent h pe r
              else (h ! r)\<lparr>isOverlapping := Some (refFlag h pe r)\<rparr>) (survivors h pe)"
    by (intro map_cong) (auto simp: survivors_def old)
  finally show ?thesis
    by (simp add: mergedEvents_eq [OF assms(2,3)] F_def H_def)
qed

lemma created_keys: "\<forall>e \<in> set (createdEvents s). continuationGroup e \<noteq> Some []"
  using createdEvents_fresh by blast

lemma processed_bounds: "\<forall>b \<in> set (processedEvents h). b < length h"
  by (simp add: processedEvents_set)

lemma layout_eq:
  "layout s =
     map (\<lambda>r. if isMergeHead (createdEvents s) (processedEvents (createdEvents s)) r
              then mergedEvent (createdEvents s) (processedEvents (createdEvents s)) r
              else (createdEvents s ! r)\<lparr>isOverlapping :=
                     Some (refFlag (createdEvents s) (processedEvents (createdEvents s)) r)\<rparr>)
         (survivors (createdEvents s) (processedEvents (createdEvents s)))"
  unfolding layout_def Let_def
  by (rule merge_then_annotate [OF processedEvents_distinct processed_bounds created_keys])

lemma mergeSpec_alt:
  "mergeSpec h pe =
     map (\<lambda>r. if isMergeHead h pe r then mergedEvent h pe r else h ! r) (survivors h pe)"
proof -
  have "mergeSpec h pe = concat (map (\<lambda>r. if isMergeHead h pe r then [mergedEvent h pe r]
                      else if isDropped h pe r then [] else [h ! r]) pe)"
    unfolding mergeSpec_def
    by (intro arg_cong [where f = concat] map_cong refl)
       (auto simp: isMergeHead_def isDropped_def mergedEvent_def span_def Let_def split: option.splits)
  then show ?thesis
    unfolding survivors_def by (simp add: concat_survivors)
qed

section \<open>The continuation merge\<close>

text \<open>
  C1. The events that the merge stage returns are those of the merge as the specification
  words it, over the split-and-sorted list: the first event of every continuation group of
  two or more is replaced by a merged event that ends where the last member ends, with
  the duration \<open>(parseHour(last.end) - parseHour(first.start)) / 13 * 100\<close>, the other
  members of the group are dropped, and every other event passes through unchanged.
\<close>

theorem continuation_merge:
  "mergeOutput s = mergeSpec (createdEvents s) (sortedRefs s)"
  unfolding mergeOutput_def sortedRefs_def Let_def mergeSpec_alt
  by (rule merged_values [OF processed_bounds created_keys])

theorem continuation_merge_witness:
  "mergeSpec
     (createdEvents \<lparr>data = [\<lparr>slot_start = ''09:00'', slot_end = ''10:00'', slot_value = Some ''CE 1A 101''\<rparr>,
                            \<lparr>slot_start = ''10:00'', slot_end = ''11:00'', slot_value = Some ''CE 1A 101''\<rparr>]\<rparr>)
     (sortedRefs \<lparr>data = [\<lparr>slot_start = ''09:00'', slot_end = ''10:00'', slot_value = Some ''CE 1A 101''\<rparr>,
                          \<lparr>slot_start = ''10:00'', slot_end = ''11:00'', slot_value = Some ''CE 1A 101''\<rparr>]\<rparr>)
   = [\<lparr>ev_start = ''09:00'', ev_end = ''11:00'', ev_value = ''CE 1A 101'',
       startPosition = Fin (200 / 13), duration = Fin (200 / 13), isOverlapping = None,
       splitIndex = 0, totalSplits = 1, continuationGroup = Some ''CE 1A 101''\<rparr>]"
proof -
  have "mergeOutput \<lparr>data = [\<lparr>slot_start = ''09:00'', slot_end = ''10:00'', slot_value = Some ''CE 1A 101''\<rparr>,
                            \<lparr>slot_start = ''10:00'', slot_end = ''11:00'', slot_value = Some ''CE 1A 101''\<rparr>]\<rparr>
   = [\<lparr>ev_start = ''09:00'', ev_end = ''11:00'', ev_value = ''CE 1A 101'',
       startPosition = Fin (200 / 13), duration = Fin (200 / 13), isOverlapping = None,
       splitIndex = 0, totalSplits = 1, continuationGroup = Some ''CE 1A 101''\<rparr>]"
    by code_simp
  then show ?thesis
    unfolding continuation_merge .
qed

section \<open>The overlap annotation\<close>

lemma annotated_nth:
  assumes "i < length (sortedRefs s)"
  shows "annotated s ! (sortedRefs s ! i) =
     (preMerge s ! i)\<lparr>isOverlapping := Some (overlapFlag (createdEvents s) (sortedRefs s) i)\<rparr>"
proof -
  define h where "h = createdEvents s"
  define pe where "pe = processedEvents h"
  define F where "F = map (mergedEvent h pe) (filter (isMergeHead h pe) pe)"
  have d: "distinct pe" and b: "\<forall>b \<in> set pe. b < length h"
    unfolding pe_def by (rule processedEvents_distinct, rule processed_bounds)
  have k: "\<forall>e \<in> set h. continuationGroup e \<noteq> Some []"
    unfolding h_def by (rule created_keys)
  from assms have i: "i < length pe" by (simp add: sortedRefs_def pe_def h_def)
  then have m: "pe ! i \<in> set pe" by simp
  with b have r: "pe ! i < length h" by simp
  have b': "\<forall>b \<in> set pe. b < length (h @ F)" using b by auto
  have "annotate pe (h @ F) ! (pe ! i) =
      ((h @ F) ! (pe ! i))\<lparr>isOverlapping := Some (refFlag (h @ F) pe (pe ! i))\<rparr>"
    using r m by (simp add: annotate_nth [OF d b'])
  also have "\<dots> = (h ! (pe ! i))\<lparr>isOverlapping := Some (overlapFlag h pe i)\<rparr>"
    using r by (simp add: nth_append refFlag_append [OF b] overlapFlag_refFlag [OF d i])
  finally show ?thesis
    using i
    by (simp add: annotated_def sortedRefs_def preMerge_def mergedEvents_eq [OF b k]
        h_def [symmetric] pe_def [symmetric] F_def)
qed

lemma overlaps_sym: "overlaps a b = overlaps b a"
  by (auto simp: overlaps_def)

text \<open>Scenario 4, stage by stage.\<close>

lemma sc4_created:
  "createdEvents scenario4 =
     [\<lparr>ev_start = ''09:00'', ev_end = ''10:00'', ev_value = ''A'',
       startPosition = Fin (200 / 13), duration = Fin (100 / 13), isOverlapping = None,
       splitIndex = 0, totalSplits = 1, continuationGroup = None\<rparr>,
      \<lparr>ev_start = ''09:30'', ev_end = ''10:30'', ev_value = ''B'',
       startPosition = Fin (250 / 13), duration = Fin (100 / 13), isOverlapping = None,
       splitIndex = 0, totalSplits = 1, continuationGroup = None\<rparr>]"
  by code_simp

lemma sc4_sorted: "sortedRefs scenario4 = [0, 1]"
  unfolding sortedRefs_def sc4_created by code_simp


lemma sc4_pre: "preMerge scenario4 = createdEvents scenario4"
  unfolding preMerge_def sc4_sorted sc4_created by simp



text \<open>
  For finite positions and positive durations the overlap test says that the half-open
  intervals \<open>[startPosition, startPosition + duration)\<close> of the two events intersect.
\<close>

lemma overlaps_intervals:
  assumes "startPosition e = Fin a" and "duration e = Fin d" and "0 < d"
    and "startPosition e' = Fin b" and "duration e' = Fin c" and "0 < c"
  shows "overlaps e e' \<longleftrightarrow> {a..<a + d} \<inter> {b..<b + c} \<noteq> {}"
proof -
  have "overlaps e e' \<longleftrightarrow> b < a + d \<and> a < b + c"
    using assms by (auto simp: overlaps_def js_ge_def)
  also have "\<dots> \<longleftrightarrow> max a b \<in> {a..<a + d} \<inter> {b..<b + c}"
    using assms(3,6) by auto
  also have "\<dots> \<longleftrightarrow> {a..<a + d} \<inter> {b..<b + c} \<noteq> {}"
    by auto
  finally show ?thesis .
qed

text \<open>
  C9. The overlap test is symmetric and so is the annotation: when the pre-merge events
  at two different indices overlap, the test also holds with the two exchanged, and
  both objects are flagged.
\<close>

theorem overlap_symmetric:
  "i < length (sortedRefs s) \<Longrightarrow> j < length (sortedRefs s) \<Longrightarrow> i \<noteq> j \<Longrightarrow>
   overlaps (preMerge s ! i) (preMerge s ! j) \<Longrightarrow>
   overlaps (preMerge s ! j) (preMerge s ! i)
   \<and> isOverlapping (annotated s ! (sortedRefs s ! i)) = Some True
   \<and> isOverlapping (annotated s ! (sortedRefs s ! j)) = Some True"
proof -
  assume i: "i < length (sortedRefs s)" and j: "j < length (sortedRefs s)" and ij: "i \<noteq> j"
    and o: "overlaps (preMerge s ! i) (preMerge s ! j)"
  from o have o': "overlaps (preMerge s ! j) (preMerge s ! i)"
    by (simp add: overlaps_sym)
  have "overlapFlag (createdEvents s) (sortedRefs s) i"
    unfolding overlapFlag_def using i j ij o by (auto simp: preMerge_def)
  moreover have "overlapFlag (createdEvents s) (sortedRefs s) j"
    unfolding overlapFlag_def using i j ij o' by (auto simp: preMerge_def)
  ultimately show ?thesis
    using o' by (simp add: annotated_nth [OF i] annotated_nth [OF j])
qed

theorem overlap_symmetric_witness:
  "(0::nat) < length (sortedRefs scenario4) \<and> (1::nat) < length (sortedRefs scenario4) \<and> (0::nat) \<noteq> 1
   \<and> overlaps (preMerge scenario4 ! 0) (preMerge scenario4 ! 1)
   \<and> overlaps (preMerge scenario4 ! 1) (preMerge scenario4 ! 0)
   \<and> isOverlapping (annotated scenario4 ! (sortedRefs scenario4 ! 0)) = Some True
   \<and> isOverlapping (annotated scenario4 ! (sortedRefs scenario4 ! 1)) = Some True"
proof -
  have a: "0 < length (sortedRefs scenario4)" and b: "1 < length (sortedRefs scenario4)"
    and c: "(0::nat) \<noteq> 1"
    and d: "overlaps (preMerge scenario4 ! 0) (preMerge scenario4 ! 1)"
    by (simp_all add: sc4_sorted sc4_pre sc4_created overlaps_def js_ge_def)
  from overlap_symmetric [OF a b c d] a b c d show ?thesis by simp
qed

section \<open>Merged copies and the overlap flag\<close>

lemma mergedEvent_fields:
  "ev_start (mergedEvent h pe r) = ev_start (h ! r)"
  "ev_value (mergedEvent h pe r) = ev_value (h ! r)"
  "startPosition (mergedEvent h pe r) = startPosition (h ! r)"
  "isOverlapping (mergedEvent h pe r) = isOverlapping (h ! r)"
  "splitIndex (mergedEvent h pe r) = splitIndex (h ! r)"
  "totalSplits (mergedEvent h pe r) = totalSplits (h ! r)"
  "continuationGroup (mergedEvent h pe r) = continuationGroup (h ! r)"
  by (simp_all add: mergedEvent_def Let_def)

lemma filter_eq_hd:
  assumes "distinct xs" and "xs \<noteq> []"
  shows "filter (\<lambda>x. x = hd xs) xs = [hd xs]"
proof (cases xs)
  case Nil
  with assms(2) show ?thesis by simp
next
  case (Cons y ys)
  with assms(1) have "filter (\<lambda>x. x = y) ys = []"
    by (auto simp: filter_empty_conv)
  with Cons show ?thesis by simp
qed

lemma survivors_of_group:
  assumes "distinct pe" and "2 \<le> length (groupOf h pe k)"
  shows "filter (\<lambda>r. continuationGroup (h ! r) = Some k) (survivors h pe) = [hd (groupOf h pe k)]"
proof -
  have d: "distinct (groupOf h pe k)" using assms(1) by (simp add: groupOf_def)
  from assms(2) have ne: "groupOf h pe k \<noteq> []" by auto
  have "filter (\<lambda>r. continuationGroup (h ! r) = Some k) (survivors h pe)
      = filter (\<lambda>r. \<not> isDropped h pe r) (groupOf h pe k)"
    unfolding survivors_def groupOf_def by (simp add: conj_commute)
  also have "\<dots> = filter (\<lambda>r. r = hd (groupOf h pe k)) (groupOf h pe k)"
    using assms(2)
    by (intro filter_cong refl) (auto simp: isDropped_def groupOf_def)
  also have "\<dots> = [hd (groupOf h pe k)]"
    using d ne by (rule filter_eq_hd)
  finally show ?thesis .
qed

lemma group_head:
  assumes "2 \<le> length (groupOf h pe k)"
  shows "isMergeHead h pe (hd (groupOf h pe k))"
    and "continuationGroup (h ! hd (groupOf h pe k)) = Some k"
    and "hd (groupOf h pe k) \<in> set pe"
proof -
  from assms have "groupOf h pe k \<noteq> []" by auto
  then have "hd (groupOf h pe k) \<in> set (groupOf h pe k)" by simp
  then show k: "continuationGroup (h ! hd (groupOf h pe k)) = Some k"
    and "hd (groupOf h pe k) \<in> set pe"
    by (simp_all add: groupOf_def)
  with assms show "isMergeHead h pe (hd (groupOf h pe k))"
    by (simp add: isMergeHead_def)
qed

lemma created_nth_fresh:
  "r < length (createdEvents s) \<Longrightarrow> isOverlapping (createdEvents s ! r) = None"
  using createdEvents_fresh nth_mem by blast

text \<open>
  C6. In the rendered list, a continuation group of two or more is represented by one
  event, the merged copy, and its \<open>isOverlapping\<close> is absent, hence never true. Every
  rendered event that is not such a copy is the object of a pre-merge event, read from
  the store after the overlap pass, and carries the flag that the pass computed for it.
\<close>

theorem merged_copy_unflagged:
  "(2 \<le> length (groupOf (createdEvents s) (sortedRefs s) k) \<longrightarrow>
      (\<exists>m. filter (\<lambda>e. continuationGroup e = Some k) (layout s) = [m]
           \<and> isOverlapping m = None \<and> isOverlapping m \<noteq> Some True))
   \<and> list_all2 (\<lambda>e r. \<not> isMergeHead (createdEvents s) (sortedRefs s) r \<longrightarrow>
          e = annotated s ! r
          \<and> (\<forall>i<length (sortedRefs s). sortedRefs s ! i = r \<longrightarrow>
                isOverlapping e = Some (overlapFlag (createdEvents s) (sortedRefs s) i)))
        (layout s) (survivors (createdEvents s) (sortedRefs s))"
proof -
  define h where "h = createdEvents s"
  define pe where "pe = sortedRefs s"
  define g where "g = (\<lambda>r. if isMergeHead h pe r then mergedEvent h pe r
                   else (h ! r)\<lparr>isOverlapping := Some (refFlag h pe r)\<rparr>)"
  have lay: "layout s = map g (survivors h pe)"
    unfolding g_def h_def pe_def sortedRefs_def by (rule layout_eq)
  have d: "distinct pe" and b: "\<forall>b \<in> set pe. b < length h"
    unfolding pe_def h_def sortedRefs_def by (rule processedEvents_distinct, rule processed_bounds)
  have gk: "continuationGroup (g r) = continuationGroup (h ! r)" for r
    by (simp add: g_def mergedEvent_fields)
  have first: "\<exists>m. filter (\<lambda>e. continuationGroup e = Some k) (layout s) = [m]
           \<and> isOverlapping m = None \<and> isOverlapping m \<noteq> Some True"
    if big: "2 \<le> length (groupOf h pe k)"
  proof -
    let ?r = "hd (groupOf h pe k)"
    have "filter (\<lambda>e. continuationGroup e = Some k) (layout s)
        = map g (filter (\<lambda>r. continuationGroup (h ! r) = Some k) (survivors h pe))"
      by (simp add: lay filter_map comp_def gk)
    also have "\<dots> = [g ?r]"
      by (simp add: survivors_of_group [OF d big])
    finally have f: "filter (\<lambda>e. continuationGroup e = Some k) (layout s) = [g ?r]" .
    from group_head(3) [OF big] b have "?r < length h" by simp
    then have "isOverlapping (h ! ?r) = None"
      unfolding h_def by (rule created_nth_fresh)
    then have "isOverlapping (g ?r) = None"
      using group_head(1) [OF big] by (simp add: g_def mergedEvent_fields)
    with f show ?thesis by simp
  qed
  have second: "g r = annotated s ! r
      \<and> (\<forall>i<length pe. pe ! i = r \<longrightarrow> isOverlapping (g r) = Some (overlapFlag h pe i))"
    if r: "r \<in> set (survivors h pe)" and nh: "\<not> isMergeHead h pe r" for r
  proof -
    from r have "r \<in> set pe" by (simp add: survivors_def)
    then obtain i where i: "i < length pe" "pe ! i = r" by (auto simp: in_set_conv_nth)
    from i(1) have "annotated s ! (pe ! i) =
        (preMerge s ! i)\<lparr>isOverlapping := Some (overlapFlag h pe i)\<rparr>"
      unfolding pe_def h_def by (rule annotated_nth)
    with i have a: "annotated s ! r = (h ! r)\<lparr>isOverlapping := Some (overlapFlag h pe i)\<rparr>"
      by (simp add: preMerge_def pe_def h_def)
    have fl: "overlapFlag h pe j = refFlag h pe r" if "j < length pe" "pe ! j = r" for j
      using overlapFlag_refFlag [OF d that(1), of h] that(2) by simp
    from a nh fl [OF i] have "g r = annotated s ! r" by (simp add: g_def)
    moreover have "\<forall>j<length pe. pe ! j = r \<longrightarrow> isOverlapping (g r) = Some (overlapFlag h pe j)"
      using nh fl by (simp add: g_def)
    ultimately show ?thesis by simp
  qed
  have "list_all2 (\<lambda>e r. \<not> isMergeHead h pe r \<longrightarrow>
          e = annotated s ! r
          \<and> (\<forall>i<length pe. pe ! i = r \<longrightarrow> isOverlapping e = Some (overlapFlag h pe i)))
        (layout s) (survivors h pe)"
    unfolding lay list_all2_map1 list_all2_same using second by blast
  with first show ?thesis
    unfolding h_def pe_def by blast
qed

text \<open>The continuation followed by an overlapping event, stage by stage.\<close>

lemma cto_created:
  "createdEvents continuationThenOverlap =
     [\<lparr>ev_start = ''09:00'', ev_end = ''10:00'', ev_value = ''CE 1A 101'',
       startPosition = Fin (200 / 13), duration = Fin (100 / 13), isOverlapping = None,
       splitIndex = 0, totalSplits = 1, continuationGroup = Some ''CE 1A 101''\<rparr>,
      \<lparr>ev_start = ''10:00'', ev_end = ''11:00'', ev_value = ''CE 1A 101'',
       startPosition = Fin (300 / 13), duration = Fin (100 / 13), isOverlapping = None,
       splitIndex = 0, totalSplits = 1, continuationGroup = Some ''CE 1A 101''\<rparr>,
      \<lparr>ev_start = ''10:30'', ev_end = ''11:30'', ev_value = ''B'',
       startPosition = Fin (350 / 13), duration = Fin (100 / 13), isOverlapping = None,
       splitIndex = 0, totalSplits = 1, continuationGroup = None\<rparr>]"
  by code_simp

lemma cto_sorted: "sortedRefs continuationThenOverlap = [0, 1, 2]"
  unfolding sortedRefs_def cto_created by code_simp

lemma cto_group:
  "groupOf (createdEvents continuationThenOverlap) (sortedRefs continuationThenOverlap) ''CE 1A 101'' = [0, 1]"
  unfolding cto_sorted cto_created by (simp add: groupOf_def)

lemma cto_annotated:
  "annotated continuationThenOverlap =
     [\<lparr>ev_start = ''09:00'', ev_end = ''10:00'', ev_value = ''CE 1A 101'',
       startPosition = Fin (200 / 13), duration = Fin (100 / 13), isOverlapping = Some False,
       splitIndex = 0, totalSplits = 1, continuationGroup = Some ''CE 1A 101''\<rparr>,
      \<lparr>ev_start = ''10:00'', ev_end = ''11:00'', ev_value = ''CE 1A 101'',
       startPosition = Fin (300 / 13), duration = Fin (100 / 13), isOverlapping = Some True,
       splitIndex = 0, totalSplits = 1, continuationGroup = Some ''CE 1A 101''\<rparr>,
      \<lparr>ev_start = ''10:30'', ev_end = ''11:30'', ev_value = ''B'',
       startPosition = Fin (350 / 13), duration = Fin (100 / 13), isOverlapping = Some True,
       splitIndex = 0, totalSplits = 1, continuationGroup = None\<rparr>,
      \<lparr>ev_start = ''09:00'', ev_end = ''11:00'', ev_value = ''CE 1A 101'',
       startPosition = Fin (200 / 13), duration = Fin (200 / 13), isOverlapping = None,
       splitIndex = 0, totalSplits = 1, continuationGroup = Some ''CE 1A 101''\<rparr>]"
  unfolding annotated_def cto_sorted cto_created by code_simp

lemma cto_layout:
  "layout continuationThenOverlap =
     [\<lparr>ev_start = ''09:00'', ev_end = ''11:00'', ev_value = ''CE 1A 101'',
       startPosition = Fin (200 / 13), duration = Fin (200 / 13), isOverlapping = None,
       splitIndex = 0, totalSplits = 1, continuationGroup = Some ''CE 1A 101''\<rparr>,
      \<lparr>ev_start = ''10:30'', ev_end = ''11:30'', ev_value = ''B'',
       startPosition = Fin (350 / 13), duration = Fin (100 / 13), isOverlapping = Some True,
       splitIndex = 0, totalSplits = 1, continuationGroup = None\<rparr>]"
  unfolding layout_def Let_def cto_created by code_simp

lemma cto_survivors:
  "survivors (createdEvents continuationThenOverlap) (sortedRefs continuationThenOverlap) = [0, 2]"
  unfolding survivors_def isDropped_def cto_group [unfolded cto_sorted cto_created] cto_sorted cto_created
  by (simp add: groupOf_def)

theorem merged_copy_unflagged_witness:
  "2 \<le> length (groupOf (createdEvents continuationThenOverlap) (sortedRefs continuationThenOverlap) ''CE 1A 101'')
   \<and> (\<exists>m. filter (\<lambda>e. continuationGroup e = Some ''CE 1A 101'') (layout continuationThenOverlap) = [m]
          \<and> isOverlapping m = None \<and> overlaps m (layout continuationThenOverlap ! 1))
   \<and> \<not> isMergeHead (createdEvents continuationThenOverlap) (sortedRefs continuationThenOverlap) 2
   \<and> layout continuationThenOverlap ! 1 = annotated continuationThenOverlap ! 2
   \<and> isOverlapping (layout continuationThenOverlap ! 1) = Some True"
proof -
  note t = merged_copy_unflagged [of continuationThenOverlap "''CE 1A 101''"]
  have big: "2 \<le> length (groupOf (createdEvents continuationThenOverlap) (sortedRefs continuationThenOverlap) ''CE 1A 101'')"
    by (simp add: cto_group)
  with t obtain m where m: "filter (\<lambda>e. continuationGroup e = Some ''CE 1A 101'') (layout continuationThenOverlap) = [m]"
      "isOverlapping m = None"
    by blast
  from m(1) have "overlaps m (layout continuationThenOverlap ! 1)"
    by (auto simp: cto_layout overlaps_def js_ge_def)
  with m have first: "\<exists>m. filter (\<lambda>e. continuationGroup e = Some ''CE 1A 101'') (layout continuationThenOverlap) = [m]
          \<and> isOverlapping m = None \<and> overlaps m (layout continuationThenOverlap ! 1)"
    by blast
  have nh: "\<not> isMergeHead (createdEvents continuationThenOverlap) (sortedRefs continuationThenOverlap) 2"
    unfolding isMergeHead_def cto_sorted cto_created by simp
  from t [THEN conjunct2] nh
  have "layout continuationThenOverlap ! 1 = annotated continuationThenOverlap ! 2"
    unfolding cto_survivors by (auto simp: cto_layout list_all2_Cons1)
  moreover have "isOverlapping (layout continuationThenOverlap ! 1) = Some True"
    by (simp add: cto_layout)
  ultimately show ?thesis
    using big first nh by blast
qed

section \<open>What the merge leaves unchanged\<close>

text \<open>
  C7. The events that the merge stage returns correspond, one to one and in order, to
  the pre-merge events that are not dropped (the events other than the first of a
  continuation group of two or more are dropped). Each returned event has the \<open>value\<close>,
  \<open>start\<close>, \<open>splitIndex\<close>, \<open>totalSplits\<close>, \<open>continuationGroup\<close> and \<open>startPosition\<close> of
  its pre-merge event, and is equal to it in every field unless that event is the first
  of a group of two or more, where \<open>end\<close> and \<open>duration\<close> are replaced.
\<close>

theorem merge_frame:
  "list_all2 (\<lambda>m r.
       ev_value m = ev_value (createdEvents s ! r)
     \<and> ev_start m = ev_start (createdEvents s ! r)
     \<and> splitIndex m = splitIndex (createdEvents s ! r)
     \<and> totalSplits m = totalSplits (createdEvents s ! r)
     \<and> continuationGroup m = continuationGroup (createdEvents s ! r)
     \<and> startPosition m = startPosition (createdEvents s ! r)
     \<and> (\<exists>e d. m = (createdEvents s ! r)\<lparr>ev_end := e, duration := d\<rparr>)
     \<and> (\<not> isMergeHead (createdEvents s) (sortedRefs s) r \<longrightarrow> m = createdEvents s ! r))
     (mergeOutput s) (survivors (createdEvents s) (sortedRefs s))"
proof -
  define h where "h = createdEvents s"
  define pe where "pe = sortedRefs s"
  have "mergeOutput s = map (\<lambda>r. if isMergeHead h pe r then mergedEvent h pe r else h ! r) (survivors h pe)"
    unfolding mergeOutput_def sortedRefs_def Let_def h_def pe_def
    by (rule merged_values [OF processed_bounds created_keys])
  moreover have "\<exists>e d. mergedEvent h pe r = (h ! r)\<lparr>ev_end := e, duration := d\<rparr>" for r
    unfolding mergedEvent_def Let_def by blast
  moreover have "\<exists>e d. h ! r = (h ! r)\<lparr>ev_end := e, duration := d\<rparr>" for r
    by (intro exI [of _ "ev_end (h ! r)"] exI [of _ "duration (h ! r)"]) simp
  ultimately show ?thesis
    unfolding h_def [symmetric] pe_def [symmetric]
    by (simp add: list_all2_map1 list_all2_same mergedEvent_fields)
qed

theorem merge_frame_witness:
  "\<not> isMergeHead (createdEvents continuationThenOverlap) (sortedRefs continuationThenOverlap) 2
   \<and> length (mergeOutput continuationThenOverlap) = 2
   \<and> ev_value (mergeOutput continuationThenOverlap ! 0) = ''CE 1A 101''
   \<and> ev_start (mergeOutput continuationThenOverlap ! 0) = ''09:00''
   \<and> mergeOutput continuationThenOverlap ! 1 = createdEvents continuationThenOverlap ! 2"
proof -
  have nh: "\<not> isMergeHead (createdEvents continuationThenOverlap) (sortedRefs continuationThenOverlap) 2"
    unfolding isMergeHead_def cto_sorted cto_created by simp
  from merge_frame [of continuationThenOverlap] nh
  obtain a b where "mergeOutput continuationThenOverlap = [a, b]"
    and "ev_value a = ev_value (createdEvents continuationThenOverlap ! 0)"
    and "ev_start a = ev_start (createdEvents continuationThenOverlap ! 0)"
    and "b = createdEvents continuationThenOverlap ! 2"
    unfolding cto_survivors by (auto simp: list_all2_Cons2)
  with nh show ?thesis by (simp add: cto_created)
qed

section \<open>Order of the events\<close>

lemma slotEvents_position:
  "e \<in> set (slotEvents slot) \<Longrightarrow>
   startPosition e = position (convertTimeToNumber (slot_start slot))"
  by (auto simp: slotEvents_def Let_def split: option.splits)

lemma created_position:
  assumes "\<forall>slot \<in> set (data s). hasValue slot \<longrightarrow> convertTimeToNumber (slot_start slot) \<noteq> NaN"
    and "e \<in> set (createdEvents s)"
  shows "startPosition e \<noteq> NaN"
proof -
  from assms(2) obtain slot where "slot \<in> set (data s)" "hasValue slot" "e \<in> set (slotEvents slot)"
    by (auto simp: createdEvents_def)
  with assms(1) show ?thesis
    by (simp add: slotEvents_position position_NaN)
qed

lemma sorted_refs:
  assumes "\<forall>e \<in> set h. startPosition e \<noteq> NaN"
  shows "sorted_wrt (\<lambda>a b. js_le (startPosition (h ! a)) (startPosition (h ! b))) (processedEvents h)"
  unfolding processedEvents_def
proof (rule sorted_sort_cmp)
  show "\<forall>y \<in> set [0..<length h]. startPosition (h ! y) \<noteq> NaN"
    using assms by simp
  show "compareFn h a b = js_sub (startPosition (h ! a)) (startPosition (h ! b))" for a b
    by (simp add: compareFn_def)
qed

lemma stable_refs:
  assumes "\<And>r. P r \<Longrightarrow> startPosition (h ! r) = p"
  shows "filter P (processedEvents h) = filter P [0..<length h]"
  unfolding processedEvents_def
proof (rule filter_sort_cmp)
  fix x y
  assume "P x" and "js_gt (compareFn h x y) (Fin 0)"
  then have "startPosition (h ! x) = p" and "startPosition (h ! x) \<noteq> startPosition (h ! y)"
    using assms by (simp_all add: compareFn_def js_gt_sub_neq)
  with assms show "\<not> P y" by auto
qed

text \<open>
  C8, as the code has it. When the start time of every slot with a value parses to a number, the pre-merge
  list is in ascending order of \<open>startPosition\<close> and the events with equal
  \<open>startPosition\<close> keep the order in which the slots gave them; the rendered list is
  again ascending, its events have the \<open>startPosition\<close> of the pre-merge events that were
  not dropped, and among these the events with equal \<open>startPosition\<close> keep that order.
\<close>

theorem events_sorted:
  assumes "\<forall>slot \<in> set (data s). hasValue slot \<longrightarrow> convertTimeToNumber (slot_start slot) \<noteq> NaN"
  shows "sorted_wrt (\<lambda>a b. js_le (startPosition a) (startPosition b)) (preMerge s)
     \<and> (\<forall>p. filter (\<lambda>e. startPosition e = p) (preMerge s)
            = filter (\<lambda>e. startPosition e = p) (createdEvents s))
     \<and> sorted_wrt (\<lambda>a b. js_le (startPosition a) (startPosition b)) (layout s)
     \<and> list_all2 (\<lambda>e r. startPosition e = startPosition (createdEvents s ! r))
          (layout s) (survivors (createdEvents s) (sortedRefs s))
     \<and> (\<forall>p. filter (\<lambda>r. startPosition (createdEvents s ! r) = p)
              (survivors (createdEvents s) (sortedRefs s))
            = filter (\<lambda>r. startPosition (createdEvents s ! r) = p
                          \<and> \<not> isDropped (createdEvents s) (sortedRefs s) r)
                [0..<length (createdEvents s)])"
proof -
  define h where "h = createdEvents s"
  define pe where "pe = sortedRefs s"
  define g where "g = (\<lambda>r. if isMergeHead h pe r then mergedEvent h pe r
                   else (h ! r)\<lparr>isOverlapping := Some (refFlag h pe r)\<rparr>)"
  have pe: "pe = processedEvents h" by (simp add: pe_def h_def sortedRefs_def)
  have lay: "layout s = map g (survivors h pe)"
    unfolding g_def h_def pe_def sortedRefs_def by (rule layout_eq)
  have gp: "startPosition (g r) = startPosition (h ! r)" for r
    by (simp add: g_def mergedEvent_fields)
  have "\<forall>e \<in> set h. startPosition e \<noteq> NaN"
    unfolding h_def using created_position [OF assms] by blast
  then have sr: "sorted_wrt (\<lambda>a b. js_le (startPosition (h ! a)) (startPosition (h ! b))) pe"
    unfolding pe by (rule sorted_refs)
  then have c1: "sorted_wrt (\<lambda>a b. js_le (startPosition a) (startPosition b)) (preMerge s)"
    by (simp add: preMerge_def sorted_wrt_map h_def pe_def)
  have c2: "filter (\<lambda>e. startPosition e = p) (preMerge s) = filter (\<lambda>e. startPosition e = p) h" for p
  proof -
    have "filter (\<lambda>e. startPosition e = p) (preMerge s)
        = map (\<lambda>r. h ! r) (filter (\<lambda>r. startPosition (h ! r) = p) pe)"
      by (simp add: preMerge_def filter_map comp_def h_def pe_def)
    also have "\<dots> = map (\<lambda>r. h ! r) (filter (\<lambda>r. startPosition (h ! r) = p) [0..<length h])"
      unfolding pe by (simp add: stable_refs [where p = p])
    also have "\<dots> = filter (\<lambda>e. startPosition e = p) (map (\<lambda>r. h ! r) [0..<length h])"
      by (simp add: filter_map comp_def)
    finally show ?thesis by (simp add: map_nth)
  qed
  from sr have "sorted_wrt (\<lambda>a b. js_le (startPosition (h ! a)) (startPosition (h ! b))) (survivors h pe)"
    unfolding survivors_def by (rule sorted_wrt_filter)
  then have c3: "sorted_wrt (\<lambda>a b. js_le (startPosition a) (startPosition b)) (layout s)"
    by (simp add: lay sorted_wrt_map gp)
  have c4: "list_all2 (\<lambda>e r. startPosition e = startPosition (h ! r)) (layout s) (survivors h pe)"
    by (simp add: lay list_all2_map1 list_all2_same gp)
  have c5: "filter (\<lambda>r. startPosition (h ! r) = p) (survivors h pe)
      = filter (\<lambda>r. startPosition (h ! r) = p \<and> \<not> isDropped h pe r) [0..<length h]" for p
  proof -
    have "filter (\<lambda>r. startPosition (h ! r) = p) (survivors h pe)
        = filter (\<lambda>r. startPosition (h ! r) = p \<and> \<not> isDropped h pe r) (processedEvents h)"
      unfolding survivors_def by (simp add: pe [symmetric] conj_commute)
    also have "\<dots> = filter (\<lambda>r. startPosition (h ! r) = p \<and> \<not> isDropped h pe r) [0..<length h]"
      by (rule stable_refs [where p = p]) simp
    finally show ?thesis .
  qed
  from c1 c2 c3 c4 c5 show ?thesis
    unfolding h_def pe_def by blast
qed

theorem events_sorted_witness:
  "sorted_wrt (\<lambda>a b. js_le (startPosition a) (startPosition b)) (preMerge unsortedDay)
   \<and> filter (\<lambda>e. startPosition e = Fin (300 / 13)) (preMerge unsortedDay)
       = filter (\<lambda>e. startPosition e = Fin (300 / 13)) (createdEvents unsortedDay)
   \<and> sorted_wrt (\<lambda>a b. js_le (startPosition a) (startPosition b)) (layout unsortedDay)"
proof -
  have h: "\<forall>slot \<in> set (data unsortedDay). hasValue slot \<longrightarrow> convertTimeToNumber (slot_start slot) \<noteq> NaN"
    by code_simp
  from events_sorted [OF h] show ?thesis by blast
qed

text \<open>
  Without that condition C8 fails. For a start time that does not parse the comparator
  of the sort returns \<open>NaN\<close>, which the sort takes as \<open>0\<close>, and the pre-merge list is
  not ascending: here the event of 10:00 stays in front of the event of 09:00, and no
  place of the event without a position would make the list ascending.
\<close>

lemma mm_created:
  "createdEvents malformedMiddle =
     [\<lparr>ev_start = ''10:00'', ev_end = ''11:00'', ev_value = ''B'',
       startPosition = Fin (300 / 13), duration = Fin (100 / 13), isOverlapping = None,
       splitIndex = 0, totalSplits = 1, continuationGroup = None\<rparr>,
      \<lparr>ev_start = ''xx:00'', ev_end = ''10:00'', ev_value = ''A'',
       startPosition = NaN, duration = NaN, isOverlapping = None,
       splitIndex = 0, totalSplits = 1, continuationGroup = None\<rparr>,
      \<lparr>ev_start = ''09:00'', ev_end = ''10:00'', ev_value = ''C'',
       startPosition = Fin (200 / 13), duration = Fin (100 / 13), isOverlapping = None,
       splitIndex = 0, totalSplits = 1, continuationGroup = None\<rparr>]"
  by code_simp

lemma mm_sorted: "sortedRefs malformedMiddle = [0, 1, 2]"
  unfolding sortedRefs_def mm_created by code_simp

theorem events_sorted_counterexample:
  "\<not> sorted_wrt (\<lambda>a b. js_le (startPosition a) (startPosition b)) (preMerge malformedMiddle)"
  unfolding preMerge_def mm_sorted mm_created
  by (simp add: js_le_def js_ge_def)

section \<open>The split stage\<close>

lemma map_zip_upt:
  "map (\<lambda>(v, i). f v i) (zip vs [0..<length vs]) = map (\<lambda>i. f (vs ! i) i) [0..<length vs]"
  by (rule nth_equalityI) simp_all

lemma slotEvents_lines:
  "slotEvents slot = map (lineEvent slot) [0..<length (nonEmptyLines slot)]"
proof (cases "slot_value slot")
  case None
  then show ?thesis by (simp add: slotEvents_def nonEmptyLines_def)
next
  case (Some v)
  then have n: "nonEmptyLines slot = splitEventValue v"
    by (simp add: nonEmptyLines_def splitEventValue_def)
  show ?thesis
    unfolding slotEvents_def Some option.case Let_def map_zip_upt n lineEvent_def [abs_def]
    by simp
qed

lemma preMerge_mset: "mset (preMerge s) = mset (createdEvents s)"
proof -
  define h where "h = createdEvents s"
  have "mset (map (\<lambda>r. h ! r) (processedEvents h)) = image_mset (\<lambda>r. h ! r) (mset (processedEvents h))"
    by simp
  also have "\<dots> = mset (map (\<lambda>r. h ! r) [0..<length h])"
    by (simp add: processedEvents_mset)
  finally show ?thesis
    by (simp add: preMerge_def sortedRefs_def h_def map_nth)
qed

text \<open>
  C3. The split stage yields exactly one event for each non-empty line of each slot
  that has a non-empty value: the pre-merge list has as many events as these slots
  have non-empty lines, and it is a rearrangement of the events \<open>lineEvent slot i\<close>,
  where the event of line \<open>i\<close> has \<open>splitIndex = i\<close>, \<open>totalSplits\<close> the number of
  non-empty lines of its slot, and the \<open>startPosition\<close> and \<open>duration\<close> of its slot.
\<close>

theorem split_stage:
  "length (preMerge s)
     = sum_list (map (\<lambda>slot. length (nonEmptyLines slot)) (filter hasValue (data s)))
   \<and> mset (preMerge s)
     = mset (concat (map (\<lambda>slot. map (lineEvent slot) [0..<length (nonEmptyLines slot)])
                         (filter hasValue (data s))))"
proof -
  have c: "createdEvents s
     = concat (map (\<lambda>slot. map (lineEvent slot) [0..<length (nonEmptyLines slot)])
                   (filter hasValue (data s)))"
    by (simp add: createdEvents_def slotEvents_lines [abs_def])
  have "length (preMerge s) = length (createdEvents s)"
    by (simp add: preMerge_def sortedRefs_def processedEvents_length)
  also have "\<dots> = sum_list (map (\<lambda>slot. length (nonEmptyLines slot)) (filter hasValue (data s)))"
    unfolding c by (simp add: length_concat comp_def)
  finally show ?thesis
    using preMerge_mset [of s] c by simp
qed

lemma sc2_lines: "nonEmptyLines (hd (data scenario2)) = [''CE 1A 101'', ''MATH 2B 210'']"
  by code_simp

theorem split_stage_witness:
  "length (preMerge scenario2) = 2
   \<and> mset (preMerge scenario2) = {#lineEvent (hd (data scenario2)) 0, lineEvent (hd (data scenario2)) 1#}"
proof -
  have d: "filter hasValue (data scenario2) = [hd (data scenario2)]"
    by (simp add: scenario2_def hasValue_def)
  have u: "[0..<2] = [0, 1]" by (simp add: upt_rec)
  from split_stage [of scenario2] show ?thesis
    unfolding d by (simp add: sc2_lines u)
qed

section \<open>Malformed times\<close>











section \<open>The colour of a course code\<close>

lemma foldl_upd_other:
  "k \<notin> fst ` set kvs \<Longrightarrow> foldl (\<lambda>m (c, i). m(c \<mapsto> f i)) m kvs k = m k"
  by (induction kvs arbitrary: m) auto

lemma foldl_upd_distinct:
  "distinct (map fst kvs) \<Longrightarrow> (k, v) \<in> set kvs \<Longrightarrow>
   foldl (\<lambda>m (c, i). m(c \<mapsto> f i)) m kvs k = Some (f v)"
proof (induction kvs arbitrary: m)
  case Nil
  then show ?case by simp
next
  case (Cons kv kvs)
  show ?case
  proof (cases "kv = (k, v)")
    case True
    with Cons.prems(1) have "k \<notin> fst ` set kvs" by auto
    then have "foldl (\<lambda>m (c, i). m(c \<mapsto> f i)) (m(k \<mapsto> f v)) kvs k = (m(k \<mapsto> f v)) k"
      by (rule foldl_upd_other)
    then show ?thesis
      unfolding True by (simp only: foldl_Cons prod.case fun_upd_same)
  next
    case False
    with Cons show ?thesis by (cases kv) auto
  qed
qed

lemma courseColorMap_nth:
  assumes "distinct codes" and "i < length codes"
  shows "courseColorMap codes schemes (codes ! i) = Some (arrayGet schemes (colorIndex i (length schemes)))"
proof -
  have d: "distinct (map fst (zip codes [0..<length codes]))"
    using assms(1) by simp
  have m: "(codes ! i, i) \<in> set (zip codes [0..<length codes])"
    using assms(2) by (auto simp: set_zip)
  show ?thesis
    unfolding courseColorMap_def by (rule foldl_upd_distinct [OF d m])
qed

text \<open>
  C10. \<open>index % COLOR_SCHEMES.length - 1\<close> is \<open>(index % length) - 1\<close>. For distinct course
  codes and a non-empty table of colour schemes, a code whose index is a multiple of the
  table's length gets the index \<open>-1\<close>, which is outside the table: the map binds the code
  to \<open>undefined\<close>, and \<open>getCourseColor\<close> returns \<open>DEFAULT_COLOR\<close> for every value whose
  three-digit match is that code.
\<close>

theorem color_index_out_of_range:
  "distinct COURSE_CODES \<Longrightarrow> COLOR_SCHEMES \<noteq> [] \<Longrightarrow> index < length COURSE_CODES \<Longrightarrow>
   index mod length COLOR_SCHEMES = 0 \<Longrightarrow>
   colorIndex index (length COLOR_SCHEMES) = Some (- 1)
   \<and> arrayGet COLOR_SCHEMES (colorIndex index (length COLOR_SCHEMES)) = None
   \<and> courseColorMap COURSE_CODES COLOR_SCHEMES (COURSE_CODES ! index) = Some None
   \<and> (matchCourseCode v = Some (COURSE_CODES ! index) \<longrightarrow>
        getCourseColor COURSE_CODES COLOR_SCHEMES DEFAULT_COLOR v = DEFAULT_COLOR)"
proof -
  assume d: "distinct COURSE_CODES" and ne: "COLOR_SCHEMES \<noteq> []"
    and i: "index < length COURSE_CODES" and z: "index mod length COLOR_SCHEMES = 0"
  from ne z have c: "colorIndex index (length COLOR_SCHEMES) = Some (- 1)"
    by (simp add: colorIndex_def)
  then have a: "arrayGet COLOR_SCHEMES (colorIndex index (length COLOR_SCHEMES)) = None"
    by (simp add: arrayGet_def)
  with courseColorMap_nth [OF d i, of COLOR_SCHEMES]
  have m: "courseColorMap COURSE_CODES COLOR_SCHEMES (COURSE_CODES ! index) = Some None"
    by simp
  then have "getCourseColor COURSE_CODES COLOR_SCHEMES DEFAULT_COLOR v = DEFAULT_COLOR"
    if "matchCourseCode v = Some (COURSE_CODES ! index)"
    using that by (simp add: getCourseColor_def)
  with c a m show ?thesis by simp
qed

theorem color_index_out_of_range_witness:
  "distinct [''101'', ''102'', ''103''] \<and> [1, 2 :: nat] \<noteq> [] \<and> (2::nat) < length [''101'', ''102'', ''103'']
   \<and> 2 mod length [1, 2 :: nat] = 0
   \<and> matchCourseCode ''CE 1A 103'' = Some ([''101'', ''102'', ''103''] ! 2)
   \<and> courseColorMap [''101'', ''102'', ''103''] [1, 2 :: nat] ''103'' = Some None
   \<and> getCourseColor [''101'', ''102'', ''103''] [1, 2 :: nat] 0 ''CE 1A 103'' = 0
   \<and> getCourseColor [''101'', ''102'', ''103''] [1, 2 :: nat] 0 ''CE 1A 102'' = 1"
proof -
  have d: "distinct [''101'', ''102'', ''103'']" and ne: "[1, 2 :: nat] \<noteq> []"
    and i: "(2::nat) < length [''101'', ''102'', ''103'']" and z: "2 mod length [1, 2 :: nat] = 0"
    by (simp_all add: numeral_2_eq_2)
  have v: "matchCourseCode ''CE 1A 103'' = Some ([''101'', ''102'', ''103''] ! 2)"
    by code_simp
  have o: "getCourseColor [''101'', ''102'', ''103''] [1, 2 :: nat] 0 ''CE 1A 102'' = 1"
    by code_simp
  from color_index_out_of_range [OF d ne i z, of "''CE 1A 103''" 0] v
  have "courseColorMap [''101'', ''102'', ''103''] [1, 2 :: nat] ''103'' = Some None"
    and "getCourseColor [''101'', ''102'', ''103''] [1, 2 :: nat] 0 ''CE 1A 103'' = 0"
    by simp_all
  with d ne i z v o show ?thesis by blast
qed

end
